theory Spec2Isabelle
  imports Complex_Main "HOL-Library.Multiset"
begin

section \<open>20 Newsgroups classification notebook: data preparation and evaluation\<close>

text \<open>
  The notebook \<^verbatim>\<open>notebooks/pytorch-20ng.ipynb\<close> is a flat script. Each cell that the
  properties below talk about is embedded as a function of the values the cell reads,
  with the notebook's global constants kept as definitions of the same name.

  Conventions: Python \<^verbatim>\<open>str\<close> is \<^typ>\<open>string\<close>, a character being a code point
  below 256 (the corpus is decoded as latin-1, one character per byte); token ids, label ids and counts are \<^typ>\<open>nat\<close>; a floating-point
  value is represented by the real number it denotes, and no statement below depends on
  rounding; an exception is a value \<open>Inl e\<close> of the sum type \<open>error + 'a\<close>.
\<close>

datatype error = IndexError | ValueError | ZeroDivisionError | AttributeError

subsection \<open>Corpus loader (cell 7): header stripping\<close>

text \<open>
  \<^verbatim>\<open>t.find(sub)\<close>: the lowest index at which \<open>sub\<close> occurs in \<open>t\<close>, or \<open>-1\<close>.
  \<open>find_from sub t k\<close> scans \<open>t\<close>, whose first character has index \<open>k\<close> in the whole
  text.
\<close>

fun find_from :: "string \<Rightarrow> string \<Rightarrow> nat \<Rightarrow> int" where
  "find_from sub [] k = (if sub = [] then int k else - 1)"
| "find_from sub (c # cs) k =
     (if take (length sub) (c # cs) = sub then int k else find_from sub cs (Suc k))"

definition str_find :: "string \<Rightarrow> string \<Rightarrow> int" where
  "str_find t sub = find_from sub t 0"

definition blank_line :: string where
  "blank_line = ''\<newline>\<newline>''"

text \<open>
  \<^verbatim>\<open>
  t = f.read()
  i = t.find('\n\n')  # skip header
  if 0 < i:
      t = t[i:]
  texts.append(t)
  \<close>
\<close>

definition strip_header :: "string \<Rightarrow> string" where
  "strip_header t = (let i = str_find t blank_line in if 0 < i then drop (nat i) t else t)"

subsection \<open>Embedding loader (cell 5)\<close>

text \<open>
  \<^verbatim>\<open>line.split()\<close> without arguments: the maximal runs of non-whitespace characters.
  A character of the model is a code point below 256; the whitespace code points there
  (\<^verbatim>\<open>str.isspace\<close>) are 09 to 0D, 1C to 1F, 20, 85 (next line) and A0 (no-break
  space).
\<close>

definition is_space :: "char \<Rightarrow> bool" where
  "is_space c = (c \<in> set [CHR '' '', CHR 0x09, CHR 0x0A, CHR 0x0B, CHR 0x0C, CHR 0x0D,
                           CHR 0x1C, CHR 0x1D, CHR 0x1E, CHR 0x1F, CHR 0x85, CHR 0xA0])"

fun split_ws :: "string \<Rightarrow> string \<Rightarrow> string list" where
  "split_ws cur [] = (if cur = [] then [] else [cur])"
| "split_ws cur (c # cs) =
     (if is_space c then (if cur = [] then split_ws [] cs else cur # split_ws [] cs)
      else split_ws (cur @ [c]) cs)"

definition py_split :: "string \<Rightarrow> string list" where
  "py_split line = split_ws [] line"

text \<open>
  \<^verbatim>\<open>np.asarray(values[1:], dtype='float32')\<close> converts every field or raises
  \<^verbatim>\<open>ValueError\<close>. The conversion of one field is the array library's; it is the
  parameter \<open>pf\<close>, which answers \<open>None\<close> for a field that is not a number.
\<close>

fun asarray_float :: "(string \<Rightarrow> real option) \<Rightarrow> string list \<Rightarrow> error + real list" where
  "asarray_float pf [] = Inr []"
| "asarray_float pf (s # ss) =
     (case pf s of
        None \<Rightarrow> Inl ValueError
      | Some x \<Rightarrow> (case asarray_float pf ss of Inl e \<Rightarrow> Inl e | Inr xs \<Rightarrow> Inr (x # xs)))"

text \<open>
  \<^verbatim>\<open>
  embeddings_index = {}
  for line in f:
      values = line.split()
      word = values[0]
      coefs = np.asarray(values[1:], dtype='float32')
      embeddings_index[word] = coefs
  \<close>
  \<open>values[0]\<close> of an empty list raises \<^verbatim>\<open>IndexError\<close>.
\<close>

fun load_embeddings ::
  "(string \<Rightarrow> real option) \<Rightarrow> (string \<rightharpoonup> real list) \<Rightarrow> string list \<Rightarrow>
     error + (string \<rightharpoonup> real list)" where
  "load_embeddings pf embeddings_index [] = Inr embeddings_index"
| "load_embeddings pf embeddings_index (line # rest) =
     (case py_split line of
        [] \<Rightarrow> Inl IndexError
      | word # fields \<Rightarrow>
          (case asarray_float pf fields of
             Inl e \<Rightarrow> Inl e
           | Inr coefs \<Rightarrow> load_embeddings pf (embeddings_index(word \<mapsto> coefs)) rest))"

text \<open>
  A reader of plain decimal literals (\<open>-12.5\<close>, \<open>0.1\<close>, \<open>7\<close>), used where a concrete
  conversion is needed to run the loader; the loader itself works with any conversion.
\<close>

definition digit_of :: "char \<Rightarrow> nat option" where
  "digit_of c = (let n = (of_char c :: nat) in if 48 \<le> n \<and> n \<le> 57 then Some (n - 48) else None)"

fun digits_value :: "nat \<Rightarrow> string \<Rightarrow> nat option" where
  "digits_value acc [] = Some acc"
| "digits_value acc (c # cs) =
     (case digit_of c of None \<Rightarrow> None | Some d \<Rightarrow> digits_value (10 * acc + d) cs)"

definition unsigned_decimal :: "string \<Rightarrow> real option" where
  "unsigned_decimal s =
     (let ip = takeWhile (\<lambda>c. c \<noteq> CHR ''.'') s;
          fp = drop (Suc (length ip)) s
      in if ip = [] then None
         else (case (digits_value 0 ip, digits_value 0 fp) of
                 (Some a, Some b) \<Rightarrow> Some (real a + real b / 10 ^ length fp)
               | _ \<Rightarrow> None))"

definition decimal_literal :: "string \<Rightarrow> real option" where
  "decimal_literal s =
     (case s of
        [] \<Rightarrow> None
      | c # cs \<Rightarrow> if c = CHR ''-'' then map_option uminus (unsigned_decimal cs)
                  else unsigned_decimal s)"

text \<open>
  A line is fatal for the load when it has no field at all, or when one of the fields
  after the token is not a number.
\<close>

definition fatal_line :: "(string \<Rightarrow> real option) \<Rightarrow> string \<Rightarrow> bool" where
  "fatal_line pf line =
     (py_split line = [] \<or> (\<exists>s \<in> set (tl (py_split line)). pf s = None))"

text \<open>What the loop body stores for a line that is not fatal.\<close>

definition store_line ::
  "(string \<Rightarrow> real option) \<Rightarrow> string \<Rightarrow> (string \<rightharpoonup> real list) \<Rightarrow> (string \<rightharpoonup> real list)" where
  "store_line pf line m = m(hd (py_split line) \<mapsto> map (the \<circ> pf) (tl (py_split line)))"

subsection \<open>Tokenizer and vectorizer (cell 11)\<close>

text \<open>
  Modelled from the spec: the tokenizer (\<^verbatim>\<open>text.Tokenizer\<close>) and
  \<^verbatim>\<open>sequence.pad_sequences\<close> are functions of the Keras preprocessing library, which
  the notebook imports and calls with
  \<^verbatim>\<open>
  tokenizer = text.Tokenizer(num_words=MAX_NUM_WORDS)
  tokenizer.fit_on_texts(texts)
  sequences = tokenizer.texts_to_sequences(texts)
  word_index = tokenizer.word_index
  data = sequence.pad_sequences(sequences, maxlen=MAX_SEQUENCE_LENGTH)
  \<close>
  Their code is not in the notebook. The definitions follow the spec (a vocabulary ranked
  by frequency with ties in first-seen order, tokens at or beyond the cap dropped, not
  mapped to a reserved id; sequences cut to their trailing \<open>maxlen\<close> ids or left-padded
  with 0), with the library's defaults for what the spec leaves open: lower-casing, the
  default filter characters, splitting at single spaces, ids starting at 1.
\<close>

definition MAX_NUM_WORDS :: nat where
  "MAX_NUM_WORDS = 10000"

definition MAX_SEQUENCE_LENGTH :: nat where
  "MAX_SEQUENCE_LENGTH = 1000"

definition py_lower :: "char \<Rightarrow> char" where
  "py_lower c =
     (let n = (of_char c :: nat)
      in if (65 \<le> n \<and> n \<le> 90) \<or> (192 \<le> n \<and> n \<le> 222 \<and> n \<noteq> 215)
         then char_of (n + 32) else c)"

text \<open>
  The default filter: the characters \<^verbatim>\<open>!"#$%&()*+,-./:;<=>?@[\]^_`{|}~\<close>, tab and
  newline (the apostrophe is kept).
\<close>

definition filters :: "char list" where
  "filters = [CHR 0x21, CHR 0x22, CHR 0x23, CHR 0x24, CHR 0x25, CHR 0x26, CHR 0x28, CHR 0x29,
              CHR 0x2A, CHR 0x2B, CHR 0x2C, CHR 0x2D, CHR 0x2E, CHR 0x2F, CHR 0x3A, CHR 0x3B,
              CHR 0x3C, CHR 0x3D, CHR 0x3E, CHR 0x3F, CHR 0x40, CHR 0x5B, CHR 0x5C, CHR 0x5D,
              CHR 0x5E, CHR 0x5F, CHR 0x60, CHR 0x7B, CHR 0x7C, CHR 0x7D, CHR 0x7E, CHR 0x09,
              CHR 0x0A]"

fun split_on :: "char \<Rightarrow> string \<Rightarrow> string \<Rightarrow> string list" where
  "split_on d cur [] = [cur]"
| "split_on d cur (c # cs) =
     (if c = d then cur # split_on d [] cs else split_on d (cur @ [c]) cs)"

definition text_to_word_sequence :: "string \<Rightarrow> string list" where
  "text_to_word_sequence t =
     filter (\<lambda>w. w \<noteq> [])
       (split_on (CHR '' '') []
          (map (\<lambda>c. if c \<in> set filters then CHR '' '' else c) (map py_lower t)))"

text \<open>Word counts, kept in first-seen order.\<close>

fun bump :: "string \<Rightarrow> (string \<times> nat) list \<Rightarrow> (string \<times> nat) list" where
  "bump w [] = [(w, 1)]"
| "bump w ((k, c) # kvs) = (if k = w then (k, Suc c) # kvs else (k, c) # bump w kvs)"

definition word_counts :: "string list \<Rightarrow> (string \<times> nat) list" where
  "word_counts texts = fold (\<lambda>t wc. fold bump (text_to_word_sequence t) wc) texts []"

text \<open>
  The vocabulary: the words by decreasing count (a stable sort, so equal counts stay in
  first-seen order), numbered from 1; id 0 is never given to a word.
\<close>

definition fit_on_texts :: "string list \<Rightarrow> (string \<times> nat) list" where
  "fit_on_texts texts =
     (let sorted_voc = map fst (sort_key (\<lambda>wc. - int (snd wc)) (word_counts texts))
      in zip sorted_voc [1 ..< Suc (length sorted_voc)])"

text \<open>
  Encoding one text: a word outside the vocabulary is dropped; so is a word whose id is
  at or beyond \<open>num_words\<close>, when \<open>num_words\<close> is not 0 (the library reads 0 as no cap).
\<close>

fun encode_words :: "nat \<Rightarrow> (string \<times> nat) list \<Rightarrow> string list \<Rightarrow> nat list" where
  "encode_words num_words word_index [] = []"
| "encode_words num_words word_index (w # ws) =
     (case map_of word_index w of
        None \<Rightarrow> encode_words num_words word_index ws
      | Some i \<Rightarrow>
          if num_words \<noteq> 0 \<and> num_words \<le> i then encode_words num_words word_index ws
          else i # encode_words num_words word_index ws)"

definition texts_to_sequences :: "nat \<Rightarrow> (string \<times> nat) list \<Rightarrow> string list \<Rightarrow> nat list list" where
  "texts_to_sequences num_words word_index texts =
     map (\<lambda>t. encode_words num_words word_index (text_to_word_sequence t)) texts"

text \<open>
  One row of \<open>pad_sequences\<close> with the defaults \<^verbatim>\<open>padding='pre'\<close>,
  \<^verbatim>\<open>truncating='pre'\<close>, \<^verbatim>\<open>value=0\<close>: the row starts as \<open>maxlen\<close> zeros and the
  trailing \<open>maxlen\<close> ids \<^verbatim>\<open>s[-maxlen:]\<close> are written at its end. With \<open>maxlen = 0\<close> the
  slice \<^verbatim>\<open>s[-0:]\<close> is all of \<open>s\<close>, which does not fit the row: the library raises
  \<^verbatim>\<open>ValueError\<close>.
\<close>

definition pad_row :: "nat \<Rightarrow> nat list \<Rightarrow> error + nat list" where
  "pad_row maxlen s =
     (if s = [] then Inr (replicate maxlen 0)
      else let trunc = (if maxlen = 0 then s else drop (length s - maxlen) s)
           in if maxlen < length trunc then Inl ValueError
              else Inr (replicate (maxlen - length trunc) 0 @ trunc))"

fun pad_sequences :: "nat \<Rightarrow> nat list list \<Rightarrow> error + nat list list" where
  "pad_sequences maxlen [] = Inr []"
| "pad_sequences maxlen (s # ss) =
     (case pad_row maxlen s of
        Inl e \<Rightarrow> Inl e
      | Inr r \<Rightarrow> (case pad_sequences maxlen ss of Inl e \<Rightarrow> Inl e | Inr rs \<Rightarrow> Inr (r # rs)))"

text \<open>Cell 11 as a whole: from the texts to the data tensor.\<close>

definition vectorize :: "nat \<Rightarrow> nat \<Rightarrow> string list \<Rightarrow> error + nat list list" where
  "vectorize num_words maxlen texts =
     pad_sequences maxlen (texts_to_sequences num_words (fit_on_texts texts) texts)"

subsection \<open>Dataset splitter (cell 13)\<close>

text \<open>
  Modelled from the spec: \<^verbatim>\<open>train_test_split\<close> is a function of scikit-learn, called as
  \<^verbatim>\<open>
  VALIDATION_SET, TEST_SET = 1000, 4000
  x_train, x_test, y_train, y_test = train_test_split(data, labels, test_size=TEST_SET,
                                                      shuffle=True, random_state=42)
  x_train, x_val, y_train, y_val = train_test_split(x_train, y_train,
                                                    test_size=VALIDATION_SET, shuffle=False)
  \<close>
  Its code is not in the notebook. With an integer \<open>test_size\<close> it reserves that many
  samples for the test part and needs \<open>0 < test_size < n\<close>. With shuffling it draws one
  permutation of the indices from a generator seeded with \<open>random_state\<close>; the test part
  is read at the first \<open>test_size\<close> indices of the permutation, the train part at the
  others. Without shuffling the test part is the last \<open>test_size\<close> samples. The seeded
  generator is the parameter \<open>rng\<close>: \<open>rng seed n\<close> is the permutation of \<open>[0..<n]\<close>
  drawn first after seeding with \<open>seed\<close>.
\<close>

definition VALIDATION_SET :: nat where
  "VALIDATION_SET = 1000"

definition TEST_SET :: nat where
  "TEST_SET = 4000"

definition random_state :: nat where
  "random_state = 42"

text \<open>The indices \<open>(train, test)\<close> of one split of \<open>n\<close> samples.\<close>

definition split_indices :: "(nat \<Rightarrow> nat list) option \<Rightarrow> nat \<Rightarrow> nat \<Rightarrow> error + (nat list \<times> nat list)" where
  "split_indices shuffle test_size n =
     (if n \<le> test_size \<or> test_size = 0 then Inl ValueError
      else (case shuffle of
              None \<Rightarrow> Inr ([0 ..< n - test_size], [n - test_size ..< n])
            | Some permutation \<Rightarrow>
                Inr (drop test_size (permutation n), take test_size (permutation n))))"

definition train_test_split ::
  "(nat \<Rightarrow> nat list) option \<Rightarrow> nat \<Rightarrow> 'a list \<Rightarrow> 'b list \<Rightarrow>
     error + ('a list \<times> 'a list \<times> 'b list \<times> 'b list)" where
  "train_test_split shuffle test_size xs ys =
     (if length xs \<noteq> length ys then Inl ValueError
      else (case split_indices shuffle test_size (length xs) of
              Inl e \<Rightarrow> Inl e
            | Inr (train, test) \<Rightarrow>
                Inr (map ((!) xs) train, map ((!) xs) test,
                     map ((!) ys) train, map ((!) ys) test)))"

record ('a, 'b) splits =
  x_train :: "'a list"
  y_train :: "'b list"
  x_val :: "'a list"
  y_val :: "'b list"
  x_test :: "'a list"
  y_test :: "'b list"

definition splitter ::
  "(nat \<Rightarrow> nat \<Rightarrow> nat list) \<Rightarrow> nat \<Rightarrow> nat \<Rightarrow> nat \<Rightarrow> 'a list \<Rightarrow> 'b list \<Rightarrow>
     error + ('a, 'b) splits" where
  "splitter rng seed test_set validation_set data labels =
     (case train_test_split (Some (rng seed)) test_set data labels of
        Inl e \<Rightarrow> Inl e
      | Inr (x_tr, x_te, y_tr, y_te) \<Rightarrow>
          (case train_test_split None validation_set x_tr y_tr of
             Inl e \<Rightarrow> Inl e
           | Inr (x_tr', x_va, y_tr', y_va) \<Rightarrow>
               Inr \<lparr>x_train = x_tr', y_train = y_tr', x_val = x_va, y_val = y_va,
                    x_test = x_te, y_test = y_te\<rparr>))"

text \<open>
  The same two calls on index lists: which positions of the input each part is read
  from.
\<close>

definition splitter_indices ::
  "(nat \<Rightarrow> nat \<Rightarrow> nat list) \<Rightarrow> nat \<Rightarrow> nat \<Rightarrow> nat \<Rightarrow> nat \<Rightarrow> error + (nat list \<times> nat list \<times> nat list)" where
  "splitter_indices rng seed test_set validation_set n =
     (case split_indices (Some (rng seed)) test_set n of
        Inl e \<Rightarrow> Inl e
      | Inr (rest, test) \<Rightarrow>
          (case split_indices None validation_set (length rest) of
             Inl e \<Rightarrow> Inl e
           | Inr (tr, va) \<Rightarrow> Inr (map ((!) rest) tr, map ((!) rest) va, test)))"

text \<open>
  Modelled from the spec: where the permutation comes from. The library keeps a global
  generator, whose state changes with every draw. \<^verbatim>\<open>random_state=42\<close> makes the split
  draw from a fresh generator seeded with 42 and leaves the global one alone;
  \<^verbatim>\<open>random_state=None\<close> draws from the global one; \<^verbatim>\<open>shuffle=False\<close> draws nothing.
  The generator is a parameter: \<open>seeded k\<close> is the state of a generator just seeded with
  \<open>k\<close>, and \<open>permutation g n\<close> gives the permutation of \<open>[0..<n]\<close> drawn in state \<open>g\<close>
  with the state after the draw. A run takes the state of the global generator and
  returns it with the result; the arguments are checked before anything is drawn.
\<close>

definition check_random_state :: "(nat \<Rightarrow> 'g) \<Rightarrow> nat option \<Rightarrow> 'g \<Rightarrow> 'g" where
  "check_random_state seeded rstate global_rng =
     (case rstate of None \<Rightarrow> global_rng | Some k \<Rightarrow> seeded k)"

definition train_test_split_run ::
  "(nat \<Rightarrow> 'g) \<Rightarrow> ('g \<Rightarrow> nat \<Rightarrow> nat list \<times> 'g) \<Rightarrow> bool \<Rightarrow> nat option \<Rightarrow> nat \<Rightarrow>
     'a list \<Rightarrow> 'b list \<Rightarrow> 'g \<Rightarrow>
     (error + ('a list \<times> 'a list \<times> 'b list \<times> 'b list)) \<times> 'g" where
  "train_test_split_run seeded permutation shuffle rstate test_size xs ys global_rng =
     (if \<not> shuffle then (train_test_split None test_size xs ys, global_rng)
      else if length xs \<noteq> length ys \<or> length xs \<le> test_size \<or> test_size = 0
      then (Inl ValueError, global_rng)
      else (case permutation (check_random_state seeded rstate global_rng) (length xs) of
              (perm, g') \<Rightarrow>
                (train_test_split (Some (\<lambda>n. perm)) test_size xs ys,
                 (case rstate of None \<Rightarrow> g' | Some k \<Rightarrow> global_rng))))"

text \<open>
  Cell 13 as a run: the first call shuffles with \<open>random_state=seed\<close>, the second does
  not shuffle.
\<close>

definition splitter_run ::
  "(nat \<Rightarrow> 'g) \<Rightarrow> ('g \<Rightarrow> nat \<Rightarrow> nat list \<times> 'g) \<Rightarrow> nat \<Rightarrow> nat \<Rightarrow> nat \<Rightarrow>
     'a list \<Rightarrow> 'b list \<Rightarrow> 'g \<Rightarrow> (error + ('a, 'b) splits) \<times> 'g" where
  "splitter_run seeded permutation seed test_set validation_set data labels global_rng =
     (case train_test_split_run seeded permutation True (Some seed) test_set data labels
             global_rng of
        (Inl e, g1) \<Rightarrow> (Inl e, g1)
      | (Inr (x_tr, x_te, y_tr, y_te), g1) \<Rightarrow>
          (case train_test_split_run seeded permutation False None validation_set x_tr y_tr g1 of
             (Inl e, g2) \<Rightarrow> (Inl e, g2)
           | (Inr (x_tr', x_va, y_tr', y_va), g2) \<Rightarrow>
               (Inr \<lparr>x_train = x_tr', y_train = y_tr', x_val = x_va, y_val = y_va,
                     x_test = x_te, y_test = y_te\<rparr>, g2)))"

text \<open>The permutation a freshly seeded generator draws first.\<close>

definition seeded_permutation ::
  "(nat \<Rightarrow> 'g) \<Rightarrow> ('g \<Rightarrow> nat \<Rightarrow> nat list \<times> 'g) \<Rightarrow> nat \<Rightarrow> nat \<Rightarrow> nat list" where
  "seeded_permutation seeded permutation seed n = fst (permutation (seeded seed) n)"

subsection \<open>Embedding matrix (cell 17)\<close>

text \<open>
  \<^verbatim>\<open>
  num_words = min(MAX_NUM_WORDS, len(word_index) + 1)
  embedding_dim = 100
  embedding_matrix = np.zeros((num_words, embedding_dim))
  n_not_found = 0
  for word, i in word_index.items():
      if i >= MAX_NUM_WORDS:
          continue
      embedding_vector = embeddings_index.get(word)
      if embedding_vector is not None:
          # words not found in embedding index will be all-zeros.
          embedding_matrix[i] = embedding_vector
      else:
          n_not_found += 1
  \<close>
  The cell is a function of \<open>MAX_NUM_WORDS\<close>, \<open>embedding_dim\<close>, the word index (the
  list of its items, in iteration order) and the embedding table.
\<close>

definition embedding_dim :: nat where
  "embedding_dim = 100"

text \<open>
  \<^verbatim>\<open>embedding_matrix[i] = v\<close>: a row index beyond the matrix raises \<^verbatim>\<open>IndexError\<close>; a
  vector of the row's length is copied; a vector of length 1 is broadcast over the row;
  any other length raises \<^verbatim>\<open>ValueError\<close>.
\<close>

definition set_row :: "real list list \<Rightarrow> nat \<Rightarrow> real list \<Rightarrow> error + real list list" where
  "set_row m i v =
     (if length m \<le> i then Inl IndexError
      else if length v = length (m ! i) then Inr (m[i := v])
      else if length v = 1 then Inr (m[i := replicate (length (m ! i)) (hd v)])
      else Inl ValueError)"

fun fill_matrix ::
  "nat \<Rightarrow> (string \<rightharpoonup> real list) \<Rightarrow> (string \<times> nat) list \<Rightarrow> real list list \<times> nat \<Rightarrow>
     error + (real list list \<times> nat)" where
  "fill_matrix max_words embeddings_index [] (m, n_not_found) = Inr (m, n_not_found)"
| "fill_matrix max_words embeddings_index ((word, i) # rest) (m, n_not_found) =
     (if max_words \<le> i then fill_matrix max_words embeddings_index rest (m, n_not_found)
      else (case embeddings_index word of
              Some embedding_vector \<Rightarrow>
                (case set_row m i embedding_vector of
                   Inl e \<Rightarrow> Inl e
                 | Inr m' \<Rightarrow> fill_matrix max_words embeddings_index rest (m', n_not_found))
            | None \<Rightarrow> fill_matrix max_words embeddings_index rest (m, Suc n_not_found)))"

definition num_words_of :: "nat \<Rightarrow> (string \<times> nat) list \<Rightarrow> nat" where
  "num_words_of max_words word_index = min max_words (length word_index + 1)"

definition embedding_matrix ::
  "nat \<Rightarrow> nat \<Rightarrow> (string \<times> nat) list \<Rightarrow> (string \<rightharpoonup> real list) \<Rightarrow>
     error + (real list list \<times> nat)" where
  "embedding_matrix max_words n_dim word_index embeddings_index =
     fill_matrix max_words embeddings_index word_index
       (replicate (num_words_of max_words word_index) (replicate n_dim 0), 0)"

text \<open>The word of a vocabulary id, if a word has this id.\<close>

definition word_of :: "(string \<times> nat) list \<Rightarrow> nat \<Rightarrow> string option" where
  "word_of word_index i = map_option fst (find (\<lambda>wi. snd wi = i) word_index)"

subsection \<open>Data loaders (cell 15) and evaluator (cell 22)\<close>

text \<open>
  A \<^verbatim>\<open>DataLoader\<close> without shuffling yields its dataset in order, \<open>batch_size\<close>
  samples at a time, the last batch possibly shorter; \<^verbatim>\<open>len(loader)\<close> is the number
  of batches, \<open>\<lceil>n / batch_size\<rceil>\<close>. The library refuses a batch size of 0 when the loader
  is built, so a loader has \<open>0 < batch_size\<close>.
\<close>

definition BATCH_SIZE :: nat where
  "BATCH_SIZE = 128"

record 'x data_loader =
  dataset :: "('x \<times> nat) list"
  batch_size :: nat

function batches :: "nat \<Rightarrow> 'a list \<Rightarrow> 'a list list" where
  "batches bs xs = (if bs = 0 \<or> xs = [] then [] else take bs xs # batches bs (drop bs xs))"
  by pat_completeness auto
termination
  by (relation "measure (\<lambda>(bs, xs). length xs)") auto

declare batches.simps [simp del]

definition loader_batches :: "'x data_loader \<Rightarrow> ('x \<times> nat) list list" where
  "loader_batches loader = batches (batch_size loader) (dataset loader)"

definition loader_len :: "'x data_loader \<Rightarrow> nat" where
  "loader_len loader =
     (length (dataset loader) + batch_size loader - 1) div batch_size loader"

text \<open>
  \<^verbatim>\<open>output.data.max(1)[1]\<close>: for each row of the batch the index of its maximum, the
  first one among equals. A row without entries has no maximum: the library raises
  \<^verbatim>\<open>IndexError\<close>.
\<close>

fun argmax_from :: "real list \<Rightarrow> nat \<Rightarrow> real \<Rightarrow> nat \<Rightarrow> nat" where
  "argmax_from [] k best bi = bi"
| "argmax_from (x # xs) k best bi =
     (if best < x then argmax_from xs (Suc k) x k else argmax_from xs (Suc k) best bi)"

definition argmax :: "real list \<Rightarrow> error + nat" where
  "argmax row = (case row of [] \<Rightarrow> Inl IndexError | x # xs \<Rightarrow> Inr (argmax_from xs 1 x 0))"

fun max_indices :: "real list list \<Rightarrow> error + nat list" where
  "max_indices [] = Inr []"
| "max_indices (row # rows) =
     (case argmax row of
        Inl e \<Rightarrow> Inl e
      | Inr i \<Rightarrow> (case max_indices rows of Inl e \<Rightarrow> Inl e | Inr is \<Rightarrow> Inr (i # is)))"

text \<open>
  \<^verbatim>\<open>
  def evaluate(loader, loss_vector=None, accuracy_vector=None):
      model.eval()
      loss, correct = 0, 0
      pred_vector = torch.LongTensor()
      for data, target in loader:
          output = model(data)
          loss += criterion(output, target).data.item()
          pred = output.data.max(1)[1] # get the index of the max log-probability
          pred_vector = torch.cat((pred_vector, pred))
          correct += pred.eq(target.data).cpu().sum()
      loss /= len(validation_loader)
      ...
      accuracy = 100. * correct.to(torch.float32) / len(loader.dataset)
      ...
      return np.array(pred_vector.cpu())
  \<close>
  The trained network and the loss are parameters: \<open>model\<close> gives the row of
  log-probabilities of one sample (in evaluation mode the rows of a batch do not depend
  on each other), \<open>criterion\<close> the loss of one batch of rows and targets.
\<close>

record eval_state =
  loss :: real
  correct :: nat
  pred_vector :: "nat list"

fun eval_batches ::
  "('x \<Rightarrow> real list) \<Rightarrow> (real list list \<Rightarrow> nat list \<Rightarrow> real) \<Rightarrow> ('x \<times> nat) list list \<Rightarrow>
     eval_state \<Rightarrow> error + eval_state" where
  "eval_batches model criterion [] st = Inr st"
| "eval_batches model criterion (batch # rest) st =
     (let output = map model (map fst batch);
          target = map snd batch
      in case max_indices output of
           Inl e \<Rightarrow> Inl e
         | Inr pred \<Rightarrow>
             eval_batches model criterion rest
               \<lparr>loss = loss st + criterion output target,
                correct = correct st + length (filter (\<lambda>(p, t). p = t) (zip pred target)),
                pred_vector = pred_vector st @ pred\<rparr>)"

record eval_result =
  mean_loss :: real
  n_correct :: nat
  accuracy :: real
  predictions :: "nat list"

text \<open>
  Dividing by \<open>len(validation_loader) = 0\<close> raises \<^verbatim>\<open>ZeroDivisionError\<close>. When the
  loader yields no batch, \<open>correct\<close> is still the integer \<open>0\<close>, which has no method
  \<open>to\<close>: \<^verbatim>\<open>AttributeError\<close>.
\<close>

definition evaluate ::
  "('x \<Rightarrow> real list) \<Rightarrow> (real list list \<Rightarrow> nat list \<Rightarrow> real) \<Rightarrow> 'x data_loader \<Rightarrow>
     'x data_loader \<Rightarrow> error + eval_result" where
  "evaluate model criterion validation_loader loader =
     (case eval_batches model criterion (loader_batches loader)
             \<lparr>loss = 0, correct = 0, pred_vector = []\<rparr> of
        Inl e \<Rightarrow> Inl e
      | Inr st \<Rightarrow>
          if loader_len validation_loader = 0 then Inl ZeroDivisionError
          else if loader_batches loader = [] then Inl AttributeError
          else Inr \<lparr>mean_loss = loss st / real (loader_len validation_loader),
                    n_correct = correct st,
                    accuracy = 100 * real (correct st) / real (length (dataset loader)),
                    predictions = pred_vector st\<rparr>)"

text \<open>The per-batch losses the loop adds up, in order.\<close>

definition batch_losses ::
  "('x \<Rightarrow> real list) \<Rightarrow> (real list list \<Rightarrow> nat list \<Rightarrow> real) \<Rightarrow> 'x data_loader \<Rightarrow> real list" where
  "batch_losses model criterion loader =
     map (\<lambda>batch. criterion (map model (map fst batch)) (map snd batch)) (loader_batches loader)"

subsection \<open>Confusion matrix and per-class accuracy (cell 28)\<close>

text \<open>
  Modelled from the spec: \<^verbatim>\<open>confusion_matrix\<close> is a function of scikit-learn, whose
  code is not in the notebook; the notebook calls it and divides the diagonal by the row
  sums:
  \<^verbatim>\<open>
  cm=confusion_matrix(y_test, predictions, labels=list(range(20)))
  for i,j in enumerate(cm.diagonal()/cm.sum(axis=1)): print(...)
  \<close>
  Rows are true classes, columns predicted classes, an entry is a count; a pair with a
  label outside \<open>labels\<close> is not counted. The library raises \<^verbatim>\<open>ValueError\<close> for
  vectors of different lengths and when no label of \<open>labels\<close> occurs in \<open>y_true\<close>.
\<close>

definition NUM_CLASSES :: nat where
  "NUM_CLASSES = 20"

definition confusion_matrix :: "nat list \<Rightarrow> nat list \<Rightarrow> nat \<Rightarrow> error + nat list list" where
  "confusion_matrix y_true y_pred n_labels =
     (if length y_true \<noteq> length y_pred then Inl ValueError
      else if list_all (\<lambda>t. n_labels \<le> t) y_true then Inl ValueError
      else Inr (map (\<lambda>i. map (\<lambda>j. length (filter (\<lambda>(t, p). t = i \<and> p = j) (zip y_true y_pred)))
                            [0 ..< n_labels])
                  [0 ..< n_labels]))"

definition diagonal :: "nat list list \<Rightarrow> nat list" where
  "diagonal cm = map (\<lambda>i. cm ! i ! i) [0 ..< length cm]"

text \<open>
  \<^verbatim>\<open>cm.diagonal()/cm.sum(axis=1)\<close>, element by element; \<open>0/0\<close> is not a number
  (\<open>None\<close>), not an exception.
\<close>

definition per_class_accuracy :: "nat list list \<Rightarrow> real option list" where
  "per_class_accuracy cm =
     map (\<lambda>(d, s). if s = 0 then None else Some (real d / real s))
       (zip (diagonal cm) (map sum_list cm))"

section \<open>Properties\<close>

subsection \<open>Corpus loader\<close>

lemma find_from_first:
  "t = h @ sub @ r \<Longrightarrow> \<forall>j<length h. take (length sub) (drop j t) \<noteq> sub \<Longrightarrow>
     find_from sub t k = int (k + length h)"
proof (induction h arbitrary: t k)
  case Nil
  have "find_from sub (sub @ r) k = int k"
  proof (cases "sub @ r")
    case Nil
    then show ?thesis by simp
  next
    case (Cons c cs)
    have "take (length sub) (sub @ r) = sub" by simp
    with Cons show ?thesis by simp
  qed
  with Nil show ?case by simp
next
  case (Cons a h)
  from Cons.prems(2) have "take (length sub) (drop 0 t) \<noteq> sub" by blast
  with Cons.prems(1) have nomatch: "take (length sub) (a # h @ sub @ r) \<noteq> sub" by simp
  have rest: "\<forall>j<length h. take (length sub) (drop j (h @ sub @ r)) \<noteq> sub"
  proof (intro allI impI)
    fix j assume "j < length h"
    then have "Suc j < length (a # h)" by simp
    with Cons.prems(2) have "take (length sub) (drop (Suc j) t) \<noteq> sub" by blast
    with Cons.prems(1) show "take (length sub) (drop j (h @ sub @ r)) \<noteq> sub" by simp
  qed
  have "find_from sub (h @ sub @ r) (Suc k) = int (Suc k + length h)"
    by (rule Cons.IH [OF refl rest])
  with nomatch Cons.prems(1) show ?case by simp
qed

lemma all_less_list: "(\<forall>j<n. P j) \<longleftrightarrow> list_all P [0..<n]"
  by (auto simp: list_all_iff)

text \<open>
  C1 (as amended). When a file's content is a non-empty header block, then the first
  blank-line separator, then a body, the loader drops the header block and nothing else:
  the text it keeps starts with the separator itself. The document
  \<open>From: x\<newline>Subject: y\<newline>\<newline>Hello world\<close> yields \<open>\<newline>\<newline>Hello world\<close>.
\<close>

theorem strip_header_keeps_separator:
  assumes "t = header @ blank_line @ body"
    and "header \<noteq> []"
    and "\<forall>j<length header. take (length blank_line) (drop j t) \<noteq> blank_line"
  shows "strip_header t = blank_line @ body"
proof -
  have "str_find t blank_line = int (length header)"
    unfolding str_find_def using find_from_first [OF assms(1) assms(3), of 0] by simp
  moreover have "0 < length header" using assms(2) by simp
  ultimately show ?thesis
    using assms(1) by (simp add: strip_header_def)
qed

theorem strip_header_keeps_separator_witness:
  "strip_header ''From: x\<newline>Subject: y\<newline>\<newline>Hello world'' = ''\<newline>\<newline>Hello world''"
proof -
  have a: "''From: x\<newline>Subject: y\<newline>\<newline>Hello world''
             = ''From: x\<newline>Subject: y'' @ blank_line @ ''Hello world''"
    by (simp add: blank_line_def)
  have b: "''From: x\<newline>Subject: y'' \<noteq> []" by simp
  have c: "\<forall>j<length ''From: x\<newline>Subject: y''.
      take (length blank_line) (drop j ''From: x\<newline>Subject: y\<newline>\<newline>Hello world'') \<noteq> blank_line"
    unfolding all_less_list by code_simp
  show ?thesis
    using strip_header_keeps_separator [OF a b c] by (simp add: blank_line_def)
qed

text \<open>
  C1 as stated fails: the text kept for the example document is not \<open>Hello world\<close>.
\<close>

theorem strip_header_example_counterexample:
  "strip_header ''From: x\<newline>Subject: y\<newline>\<newline>Hello world'' \<noteq> ''Hello world''"
  by (simp add: strip_header_def str_find_def blank_line_def)

text \<open>
  C10. When the content begins with the blank-line separator, the separator is found at
  index 0, the guard \<open>0 < i\<close> fails, and the content is kept unchanged.
\<close>

theorem strip_header_leading_separator:
  assumes "take (length blank_line) t = blank_line"
  shows "str_find t blank_line = 0 \<and> strip_header t = t"
proof -
  have "str_find t blank_line = 0"
    using assms by (cases t) (auto simp: str_find_def blank_line_def)
  then show ?thesis by (simp add: strip_header_def)
qed

theorem strip_header_leading_separator_witness:
  "str_find ''\<newline>\<newline>Hello world'' blank_line = 0
   \<and> strip_header ''\<newline>\<newline>Hello world'' = ''\<newline>\<newline>Hello world''"
  using strip_header_leading_separator [of "''\<newline>\<newline>Hello world''"]
  by (simp add: blank_line_def)

subsection \<open>Embedding loader\<close>

lemma asarray_float_isl: "isl (asarray_float pf ss) \<longleftrightarrow> (\<exists>s\<in>set ss. pf s = None)"
  by (induction ss) (auto split: option.splits sum.splits)

lemma asarray_float_Inr:
  "\<forall>s\<in>set ss. pf s \<noteq> None \<Longrightarrow> asarray_float pf ss = Inr (map (the \<circ> pf) ss)"
  by (induction ss) (auto split: option.splits sum.splits)

lemma load_embeddings_isl:
  "isl (load_embeddings pf idx lines) \<longleftrightarrow> (\<exists>l\<in>set lines. fatal_line pf l)"
proof (induction lines arbitrary: idx)
  case Nil
  show ?case by simp
next
  case (Cons line rest)
  show ?case
  proof (cases "py_split line")
    case Nil
    then show ?thesis by (simp add: fatal_line_def)
  next
    case (Cons word fields)
    show ?thesis
    proof (cases "asarray_float pf fields")
      case (Inl e)
      then have "isl (asarray_float pf fields)" by simp
      then have "\<exists>s\<in>set fields. pf s = None" by (simp add: asarray_float_isl)
      with Cons Inl show ?thesis by (auto simp: fatal_line_def)
    next
      case (Inr coefs)
      then have "\<not> isl (asarray_float pf fields)" by simp
      then have "\<not> (\<exists>s\<in>set fields. pf s = None)" by (simp add: asarray_float_isl)
      then have "\<not> fatal_line pf line" using Cons by (simp add: fatal_line_def)
      with Cons Inr Cons.IH show ?thesis by simp
    qed
  qed
qed

lemma load_embeddings_stores:
  "\<forall>l\<in>set lines. \<not> fatal_line pf l \<Longrightarrow>
     load_embeddings pf idx lines = Inr (fold (store_line pf) lines idx)"
proof (induction lines arbitrary: idx)
  case Nil
  show ?case by simp
next
  case (Cons line rest)
  from Cons.prems have nf: "\<not> fatal_line pf line" by simp
  then obtain word fields where sp: "py_split line = word # fields"
    by (cases "py_split line") (auto simp: fatal_line_def)
  with nf have "\<forall>s\<in>set fields. pf s \<noteq> None" by (auto simp: fatal_line_def)
  then have "asarray_float pf fields = Inr (map (the \<circ> pf) fields)"
    by (rule asarray_float_Inr)
  moreover have "load_embeddings pf (store_line pf line idx) rest
                   = Inr (fold (store_line pf) rest (store_line pf line idx))"
    using Cons.prems by (intro Cons.IH) simp
  moreover have "store_line pf line idx = idx(word \<mapsto> map (the \<circ> pf) fields)"
    using sp by (simp add: store_line_def)
  ultimately show ?case using sp by simp
qed

text \<open>
  C3 (as amended). The load aborts with an error exactly when some line has no field at
  all (\<open>IndexError\<close>) or has a field after the token that is not a number
  (\<open>ValueError\<close>). The number of fields is never checked: when no line is fatal, every
  line is stored as its token with the values of its remaining fields, however many
  there are (none included), a later line replacing an earlier one with the same token.
\<close>

theorem load_embeddings_fatal_lines:
  "(isl (load_embeddings pf idx lines) \<longleftrightarrow> (\<exists>l\<in>set lines. fatal_line pf l))
   \<and> ((\<forall>l\<in>set lines. \<not> fatal_line pf l) \<longrightarrow>
        load_embeddings pf idx lines = Inr (fold (store_line pf) lines idx))"
  using load_embeddings_isl [of pf idx lines] load_embeddings_stores [of lines pf idx]
  by blast

theorem load_embeddings_fatal_lines_witness:
  "\<not> isl (load_embeddings decimal_literal Map.empty [''cat 0.1 0.25\<newline>'', ''dog\<newline>''])
   \<and> isl (load_embeddings decimal_literal Map.empty [''cat 0.1 x\<newline>''])
   \<and> isl (load_embeddings decimal_literal Map.empty [''\<newline>''])
   \<and> isl (load_embeddings decimal_literal Map.empty [[CHR 0xA0, CHR 0x0A]])
   \<and> isl (load_embeddings decimal_literal Map.empty
          [[CHR ''c'', CHR ''a'', CHR ''t'', CHR 0x85, CHR ''x'', CHR 0x0A]])
   \<and> load_embeddings decimal_literal Map.empty [''cat 0.1 0.25\<newline>'', ''dog\<newline>'']
       = Inr [''cat'' \<mapsto> [1/10, 1/4], ''dog'' \<mapsto> []]"
proof -
  have n1: "decimal_literal ''0.1'' = Some (1/10)"
    by (simp add: decimal_literal_def unsigned_decimal_def digit_of_def)
  have n2: "decimal_literal ''0.25'' = Some (1/4)"
    by (simp add: decimal_literal_def unsigned_decimal_def digit_of_def)
  have n3: "decimal_literal ''x'' = None"
    by (simp add: decimal_literal_def unsigned_decimal_def digit_of_def)
  have ok: "\<forall>l\<in>set [''cat 0.1 0.25\<newline>'', ''dog\<newline>'']. \<not> fatal_line decimal_literal l"
    by (simp add: fatal_line_def py_split_def is_space_def n1 n2 del: not_None_eq)
  have bad1: "fatal_line decimal_literal ''cat 0.1 x\<newline>''"
    by (simp add: fatal_line_def py_split_def is_space_def n1 n3)
  have bad2: "fatal_line decimal_literal ''\<newline>''"
    by (simp add: fatal_line_def py_split_def is_space_def)
  have bad3: "fatal_line decimal_literal [CHR 0xA0, CHR 0x0A]"
    by (simp add: fatal_line_def py_split_def is_space_def)
  have bad4: "fatal_line decimal_literal [CHR ''c'', CHR ''a'', CHR ''t'', CHR 0x85, CHR ''x'', CHR 0x0A]"
    by (simp add: fatal_line_def py_split_def is_space_def n3)
  have st: "fold (store_line decimal_literal) [''cat 0.1 0.25\<newline>'', ''dog\<newline>''] Map.empty
              = [''cat'' \<mapsto> [1/10, 1/4], ''dog'' \<mapsto> []]"
    by (simp add: store_line_def py_split_def is_space_def n1 n2)
  show ?thesis
    using load_embeddings_fatal_lines [of decimal_literal Map.empty "[''cat 0.1 0.25\<newline>'', ''dog\<newline>'']"]
      load_embeddings_fatal_lines [of decimal_literal Map.empty "[''cat 0.1 x\<newline>'']"]
      load_embeddings_fatal_lines [of decimal_literal Map.empty "[''\<newline>'']"]
      load_embeddings_fatal_lines [of decimal_literal Map.empty "[[CHR 0xA0, CHR 0x0A]]"]
      load_embeddings_fatal_lines [of decimal_literal Map.empty
        "[[CHR ''c'', CHR ''a'', CHR ''t'', CHR 0x85, CHR ''x'', CHR 0x0A]]"]
      ok bad1 bad2 bad3 bad4 st
    by simp
qed

text \<open>
  C3 as stated fails: a line that is only a token raises nothing and is stored with an
  empty vector.
\<close>

theorem load_embeddings_token_only_counterexample:
  "load_embeddings decimal_literal Map.empty [''cat\<newline>''] = Inr [''cat'' \<mapsto> []]"
  by (simp add: py_split_def is_space_def)

subsection \<open>Tokenizer and vectorizer\<close>

lemma pad_row_length: "pad_row maxlen s = Inr r \<Longrightarrow> length r = maxlen"
  by (auto simp: pad_row_def Let_def split: if_splits)

lemma pad_row_total: "0 < maxlen \<Longrightarrow> pad_row maxlen s = Inr (replicate (maxlen - length s) 0 @ drop (length s - maxlen) s)"
  by (auto simp: pad_row_def Let_def)

lemma pad_sequences_Inr:
  "pad_sequences maxlen ss = Inr rs \<longleftrightarrow> list_all2 (\<lambda>s r. pad_row maxlen s = Inr r) ss rs"
proof (induction ss arbitrary: rs)
  case Nil
  show ?case by auto
next
  case (Cons s ss)
  show ?case
    by (cases rs) (auto simp: Cons.IH [symmetric] split: sum.splits)
qed

lemma pad_sequences_total:
  "0 < maxlen \<Longrightarrow> \<exists>rs. pad_sequences maxlen ss = Inr rs"
  by (induction ss) (auto simp: pad_row_total)

lemma encode_words_filter:
  "0 < num_words \<Longrightarrow>
     encode_words num_words word_index ws
       = filter (\<lambda>i. i < num_words) (encode_words 0 word_index ws)"
  by (induction ws) (auto split: option.splits)

lemma pad_row_set: "pad_row maxlen s = Inr r \<Longrightarrow> set r \<subseteq> insert 0 (set s)"
  by (auto simp: pad_row_def Let_def split: if_splits dest: in_set_dropD)

lemma vectorize_rows:
  shows "vectorize num_words maxlen texts = Inr data \<Longrightarrow>
           length data = length texts \<and> (\<forall>row\<in>set data. length row = maxlen)"
    and "0 < maxlen \<Longrightarrow> \<exists>data. vectorize num_words maxlen texts = Inr data"
    and "vectorize num_words maxlen texts = Inr data \<Longrightarrow> i < length texts \<Longrightarrow>
           pad_row maxlen (texts_to_sequences num_words (fit_on_texts texts) texts ! i)
             = Inr (data ! i)"
    and "0 < maxlen \<Longrightarrow> maxlen < length s \<Longrightarrow> pad_row maxlen s = Inr (drop (length s - maxlen) s)"
    and "0 < maxlen \<Longrightarrow> length s \<le> maxlen \<Longrightarrow>
           pad_row maxlen s = Inr (replicate (maxlen - length s) 0 @ s)"
    and "pad_row 5 [1, 2, 3, 4, 5, 6, 7] = Inr [3, 4, 5, 6, 7]"
    and "pad_row 5 [1, 2] = Inr [0, 0, 0, 1, 2]"
proof -
  let ?seqs = "texts_to_sequences num_words (fit_on_texts texts) texts"
  have len: "length ?seqs = length texts" by (simp add: texts_to_sequences_def)
  {
    assume "vectorize num_words maxlen texts = Inr data"
    then have all2: "list_all2 (\<lambda>s r. pad_row maxlen s = Inr r) ?seqs data"
      by (simp add: vectorize_def pad_sequences_Inr)
    then have l: "length data = length texts"
      using len by (auto dest: list_all2_lengthD)
    have "\<forall>row\<in>set data. length row = maxlen"
    proof
      fix row assume "row \<in> set data"
      then obtain j where "j < length data" "row = data ! j" by (auto simp: in_set_conv_nth)
      with all2 l len have "pad_row maxlen (?seqs ! j) = Inr row"
        by (simp add: list_all2_conv_all_nth)
      then show "length row = maxlen" by (rule pad_row_length)
    qed
    with l show "length data = length texts \<and> (\<forall>row\<in>set data. length row = maxlen)" by simp
  }
  {
    assume "vectorize num_words maxlen texts = Inr data" "i < length texts"
    then show "pad_row maxlen (?seqs ! i) = Inr (data ! i)"
      using len by (simp add: vectorize_def pad_sequences_Inr list_all2_conv_all_nth)
  }
  show "0 < maxlen \<Longrightarrow> \<exists>data. vectorize num_words maxlen texts = Inr data"
    unfolding vectorize_def by (rule pad_sequences_total)
  show "0 < maxlen \<Longrightarrow> maxlen < length s \<Longrightarrow> pad_row maxlen s = Inr (drop (length s - maxlen) s)"
    by (simp add: pad_row_total)
  show "0 < maxlen \<Longrightarrow> length s \<le> maxlen \<Longrightarrow>
           pad_row maxlen s = Inr (replicate (maxlen - length s) 0 @ s)"
    by (simp add: pad_row_total)
  show "pad_row 5 [1, 2, 3, 4, 5, 6, 7] = Inr [3, 4, 5, 6, 7]"
    by (simp add: pad_row_def)
  show "pad_row 5 [1, 2] = Inr [0, 0, 0, 1, 2]"
    by (simp add: pad_row_def numeral_eq_Suc)
qed

text \<open>
  C4. Every encoded sequence the vectorizer produces has length exactly \<open>maxlen\<close>, one
  per document, and with \<open>0 < maxlen\<close> it produces them for every list of texts. Row
  \<open>i\<close> is the padding of the \<open>i\<close>-th token sequence: a sequence longer than
  \<open>maxlen\<close> keeps its trailing \<open>maxlen\<close> ids, a shorter one gets zeros in front.
  With \<open>maxlen = 5\<close> the ids \<open>[1,2,3,4,5,6,7]\<close> become \<open>[3,4,5,6,7]\<close> and the ids
  \<open>[1,2]\<close> become \<open>[0,0,0,1,2]\<close>.
\<close>

theorem vectorize_fixed_length:
  "(vectorize num_words maxlen texts = Inr data \<longrightarrow>
      length data = length texts
      \<and> (\<forall>row\<in>set data. length row = maxlen)
      \<and> (\<forall>i<length texts.
            pad_row maxlen (texts_to_sequences num_words (fit_on_texts texts) texts ! i)
              = Inr (data ! i)))
   \<and> (0 < maxlen \<longrightarrow> (\<exists>data'. vectorize num_words maxlen texts = Inr data'))
   \<and> (0 < maxlen \<and> maxlen < length s \<longrightarrow>
        pad_row maxlen s = Inr (drop (length s - maxlen) s))
   \<and> (0 < maxlen \<and> length s \<le> maxlen \<longrightarrow>
        pad_row maxlen s = Inr (replicate (maxlen - length s) 0 @ s))
   \<and> pad_row 5 [1, 2, 3, 4, 5, 6, 7] = Inr [3, 4, 5, 6, 7]
   \<and> pad_row 5 [1, 2] = Inr [0, 0, 0, 1, 2]"
proof (intro conjI impI allI)
  assume v: "vectorize num_words maxlen texts = Inr data"
  from vectorize_rows(1) [OF v] show "length data = length texts" by simp
  from vectorize_rows(1) [OF v] show "\<forall>row\<in>set data. length row = maxlen" by simp
  fix i assume "i < length texts"
  with v show "pad_row maxlen (texts_to_sequences num_words (fit_on_texts texts) texts ! i)
                 = Inr (data ! i)"
    by (rule vectorize_rows(3))
next
  assume "0 < maxlen"
  then show "\<exists>data'. vectorize num_words maxlen texts = Inr data'"
    by (rule vectorize_rows(2))
next
  assume "0 < maxlen \<and> maxlen < length s"
  then show "pad_row maxlen s = Inr (drop (length s - maxlen) s)"
    using vectorize_rows(4) by blast
next
  assume "0 < maxlen \<and> length s \<le> maxlen"
  then show "pad_row maxlen s = Inr (replicate (maxlen - length s) 0 @ s)"
    using vectorize_rows(5) by blast
next
  show "pad_row 5 [1, 2, 3, 4, 5, 6, 7] = Inr [3, 4, 5, 6, 7]" by (rule vectorize_rows(6))
  show "pad_row 5 [1, 2] = Inr [0, 0, 0, 1, 2]" by (rule vectorize_rows(7))
qed

theorem vectorize_fixed_length_witness:
  "vectorize 3 4 [''The cat, the dog.'', ''the Cat'', ''a dog a cat'']
     = Inr [[0, 1, 2, 1], [0, 0, 1, 2], [0, 0, 0, 2]]
   \<and> length [[0, 1, 2, 1], [0, 0, 1, 2], [0, 0, 0, 2 :: nat]]
       = length [''The cat, the dog.'', ''the Cat'', ''a dog a cat'']
   \<and> length [0, 0, 0, 2 :: nat] = 4
   \<and> pad_row 4 (texts_to_sequences 3 (fit_on_texts [''The cat, the dog.'', ''the Cat'', ''a dog a cat''])
         [''The cat, the dog.'', ''the Cat'', ''a dog a cat''] ! 0) = Inr [0, 1, 2, 1]
   \<and> (\<exists>data'. vectorize 3 4 [''The cat, the dog.'', ''the Cat'', ''a dog a cat''] = Inr data')
   \<and> pad_row 2 [7, 8, 9] = Inr [8, 9]
   \<and> pad_row 3 [7] = Inr [0, 0, 7]"
proof -
  let ?texts = "[''The cat, the dog.'', ''the Cat'', ''a dog a cat'']"
  let ?data = "[[0, 1, 2, 1], [0, 0, 1, 2], [0, 0, 0, 2 :: nat]]"
  have ev: "vectorize 3 4 ?texts = Inr ?data"
    by code_simp
  note t1 = vectorize_fixed_length [where num_words = 3 and maxlen = 4 and texts = ?texts
      and data = ?data and s = "[7]"]
  note t2 = vectorize_fixed_length [where num_words = 3 and maxlen = 2 and texts = ?texts
      and data = ?data and s = "[7, 8, 9]"]
  note t3 = vectorize_fixed_length [where num_words = 3 and maxlen = 3 and texts = ?texts
      and data = ?data and s = "[7]"]
  from t1 ev have a: "length ?data = length ?texts" by blast
  from t1 ev have "\<forall>row\<in>set ?data. length row = 4" by blast
  then have b: "length [0, 0, 0, 2 :: nat] = 4" by simp
  from t1 ev have "\<forall>i<length ?texts.
      pad_row 4 (texts_to_sequences 3 (fit_on_texts ?texts) ?texts ! i) = Inr (?data ! i)"
    by blast
  then have c: "pad_row 4 (texts_to_sequences 3 (fit_on_texts ?texts) ?texts ! 0) = Inr [0, 1, 2, 1]"
    by simp
  from t1 have d: "\<exists>data'. vectorize 3 4 ?texts = Inr data'" by simp
  from t2 have e: "pad_row 2 [7, 8, 9] = Inr [8, 9]" by simp
  from t3 have f: "pad_row 3 [7] = Inr [0, 0, 7]" by (simp add: numeral_eq_Suc)
  from ev a b c d e f show ?thesis by blast
qed

lemma vectorize_ids:
  shows "0 < num_words \<Longrightarrow> vectorize num_words maxlen texts = Inr data \<Longrightarrow>
           \<forall>row\<in>set data. \<forall>x\<in>set row. x < num_words"
    and "0 < num_words \<Longrightarrow>
           encode_words num_words word_index ws
             = filter (\<lambda>i. i < num_words) (encode_words 0 word_index ws)"
    and "pad_row maxlen s = Inr r \<Longrightarrow> set r \<subseteq> insert 0 (set s)"
proof -
  let ?wi = "fit_on_texts texts"
  let ?seqs = "texts_to_sequences num_words ?wi texts"
  {
    assume pos: "0 < num_words" and v: "vectorize num_words maxlen texts = Inr data"
    from v have all2: "list_all2 (\<lambda>s r. pad_row maxlen s = Inr r) ?seqs data"
      by (simp add: vectorize_def pad_sequences_Inr)
    show "\<forall>row\<in>set data. \<forall>x\<in>set row. x < num_words"
    proof (intro ballI)
      fix row x assume "row \<in> set data" and x: "x \<in> set row"
      then obtain j where j: "j < length data" and row: "row = data ! j"
        by (auto simp: in_set_conv_nth)
      from all2 j have jl: "j < length ?seqs" and pr: "pad_row maxlen (?seqs ! j) = Inr row"
        unfolding row by (auto simp: list_all2_conv_all_nth)
      from jl have "j < length texts" by (simp add: texts_to_sequences_def)
      then have sq: "?seqs ! j = encode_words num_words ?wi (text_to_word_sequence (texts ! j))"
        by (simp add: texts_to_sequences_def)
      from pad_row_set [OF pr] x have "x = 0 \<or> x \<in> set (?seqs ! j)" by auto
      then show "x < num_words"
      proof
        assume "x = 0" with pos show ?thesis by simp
      next
        assume "x \<in> set (?seqs ! j)"
        then show ?thesis unfolding sq encode_words_filter [OF pos] by simp
      qed
    qed
  }
  show "0 < num_words \<Longrightarrow>
           encode_words num_words word_index ws
             = filter (\<lambda>i. i < num_words) (encode_words 0 word_index ws)"
    by (rule encode_words_filter)
  show "pad_row maxlen s = Inr r \<Longrightarrow> set r \<subseteq> insert 0 (set s)"
    by (rule pad_row_set)
qed

text \<open>
  C5. With a positive vocabulary cap, every id at every position of every encoded
  sequence is below the cap: encoding keeps exactly the ids below the cap of the words it
  knows (the words ranked at or beyond the cap are left out), and padding adds only the
  sentinel 0.
\<close>

theorem vectorize_ids_below_cap:
  "(0 < num_words \<and> vectorize num_words maxlen texts = Inr data \<longrightarrow>
      (\<forall>row\<in>set data. \<forall>x\<in>set row. x < num_words))
   \<and> (0 < num_words \<longrightarrow>
        encode_words num_words word_index ws
          = filter (\<lambda>i. i < num_words) (encode_words 0 word_index ws))
   \<and> (pad_row maxlen s = Inr r \<longrightarrow> set r \<subseteq> insert 0 (set s))"
proof (intro conjI impI)
  assume "0 < num_words \<and> vectorize num_words maxlen texts = Inr data"
  then show "\<forall>row\<in>set data. \<forall>x\<in>set row. x < num_words"
    using vectorize_ids(1) by blast
next
  assume "0 < num_words"
  then show "encode_words num_words word_index ws
               = filter (\<lambda>i. i < num_words) (encode_words 0 word_index ws)"
    by (rule vectorize_ids(2))
next
  assume "pad_row maxlen s = Inr r"
  then show "set r \<subseteq> insert 0 (set s)" by (rule vectorize_ids(3))
qed

theorem vectorize_ids_below_cap_witness:
  "vectorize 3 4 [''The cat, the dog.'', ''the Cat'', ''a dog a cat'']
     = Inr [[0, 1, 2, 1], [0, 0, 1, 2], [0, 0, 0, 2]]
   \<and> list_all (list_all (\<lambda>x. x < 3)) [[0, 1, 2, 1], [0, 0, 1, 2], [0, 0, 0, 2 :: nat]]
   \<and> encode_words 3 [(''the'', 1), (''cat'', 2), (''dog'', 3), (''a'', 4)]
         [''a'', ''dog'', ''a'', ''cat''] = [2]
   \<and> encode_words 0 [(''the'', 1), (''cat'', 2), (''dog'', 3), (''a'', 4)]
         [''a'', ''dog'', ''a'', ''cat''] = [4, 3, 4, 2]
   \<and> pad_row 3 [7] = Inr [0, 0, 7]
   \<and> set [0, 0, 7 :: nat] \<subseteq> insert 0 (set [7])"
proof -
  let ?texts = "[''The cat, the dog.'', ''the Cat'', ''a dog a cat'']"
  let ?data = "[[0, 1, 2, 1], [0, 0, 1, 2], [0, 0, 0, 2 :: nat]]"
  let ?wi = "[(''the'', 1), (''cat'', 2), (''dog'', 3), (''a'', 4 :: nat)]"
  have ev: "vectorize 3 4 ?texts = Inr ?data"
    by code_simp
  have pos: "0 < (3::nat)" by simp
  have pr: "pad_row 3 [7] = Inr [0, 0, 7]" by (simp add: pad_row_def numeral_eq_Suc)
  have e0: "encode_words 0 ?wi [''a'', ''dog'', ''a'', ''cat''] = [4, 3, 4, 2]" by simp
  note t = vectorize_ids_below_cap [where num_words = 3 and maxlen = 4 and texts = ?texts
      and data = ?data and word_index = ?wi and ws = "[''a'', ''dog'', ''a'', ''cat'']"]
  note t' = vectorize_ids_below_cap [where num_words = 3 and maxlen = 3 and texts = ?texts
      and data = ?data and s = "[7]" and r = "[0, 0, 7]"]
  from t ev pos have "\<forall>row\<in>set ?data. \<forall>x\<in>set row. x < 3" by blast
  then have a: "list_all (list_all (\<lambda>x. x < 3)) ?data" by simp
  from t pos have "encode_words 3 ?wi [''a'', ''dog'', ''a'', ''cat'']
      = filter (\<lambda>i. i < 3) (encode_words 0 ?wi [''a'', ''dog'', ''a'', ''cat''])"
    by blast
  then have b: "encode_words 3 ?wi [''a'', ''dog'', ''a'', ''cat''] = [2]"
    unfolding e0 by simp
  from t' pr have c: "set [0, 0, 7 :: nat] \<subseteq> insert 0 (set [7])" by blast
  from ev a b e0 pr c show ?thesis by blast
qed

subsection \<open>Dataset splitter\<close>

lemma map_nth_upt_take: "a \<le> length xs \<Longrightarrow> map ((!) xs) [0..<a] = take a xs"
proof -
  assume a: "a \<le> length xs"
  have "take a (map ((!) xs) [0..<length xs]) = map ((!) xs) [0..<a]"
    using a by (simp add: take_map min_def)
  then show ?thesis by (simp add: map_nth)
qed

lemma map_nth_upt_drop: "map ((!) xs) [a..<length xs] = drop a xs"
proof -
  have "drop a (map ((!) xs) [0..<length xs]) = map ((!) xs) [a..<length xs]"
    by (simp add: drop_map)
  then show ?thesis by (simp add: map_nth)
qed

lemma train_test_split_no_shuffle:
  assumes "length xs = length ys" "0 < t" "t < length xs"
  shows "train_test_split None t xs ys =
           Inr (take (length xs - t) xs, drop (length xs - t) xs,
                take (length xs - t) ys, drop (length xs - t) ys)"
proof -
  have "map ((!) ys) [length ys - t..<length ys] = drop (length ys - t) ys"
    by (rule map_nth_upt_drop)
  moreover have "map ((!) xs) [length xs - t..<length xs] = drop (length xs - t) xs"
    by (rule map_nth_upt_drop)
  ultimately show ?thesis
    using assms by (simp add: train_test_split_def split_indices_def map_nth_upt_take)
qed

lemma train_test_split_shuffle:
  assumes "length xs = length ys" "0 < t" "t < length xs"
  shows "train_test_split (Some p) t xs ys =
           Inr (map ((!) xs) (drop t (p (length xs))), map ((!) xs) (take t (p (length xs))),
                map ((!) ys) (drop t (p (length xs))), map ((!) ys) (take t (p (length xs))))"
  using assms by (simp add: train_test_split_def split_indices_def)

lemma train_test_split_error:
  "length xs \<noteq> length ys \<or> t = 0 \<or> length xs \<le> t \<Longrightarrow> train_test_split sh t xs ys = Inl ValueError"
  by (auto simp: train_test_split_def split_indices_def)

lemma split_indices_error:
  "t = 0 \<or> n \<le> t \<Longrightarrow> split_indices sh t n = Inl ValueError"
  by (auto simp: split_indices_def)

text \<open>The splitter, written out.\<close>

lemma splitter_cases:
  "splitter rng seed ts vs data labels =
     (let perm = rng seed (length data); rest = drop ts perm; k = length rest - vs
      in if length data \<noteq> length labels \<or> ts = 0 \<or> length data \<le> ts \<or> vs = 0 \<or> length rest \<le> vs
         then Inl ValueError
         else Inr \<lparr>x_train = take k (map ((!) data) rest), y_train = take k (map ((!) labels) rest),
                   x_val = drop k (map ((!) data) rest), y_val = drop k (map ((!) labels) rest),
                   x_test = map ((!) data) (take ts perm), y_test = map ((!) labels) (take ts perm)\<rparr>)"
proof (cases "length data \<noteq> length labels \<or> ts = 0 \<or> length data \<le> ts")
  case True
  then have "train_test_split (Some (rng seed)) ts data labels = Inl ValueError"
    by (intro train_test_split_error) auto
  with True show ?thesis by (auto simp: splitter_def Let_def)
next
  case False
  then have a: "length data = length labels" "0 < ts" "ts < length data" by auto
  let ?rest = "drop ts (rng seed (length data))"
  let ?xr = "map ((!) data) ?rest" and ?yr = "map ((!) labels) ?rest"
  note first = train_test_split_shuffle [OF a, of "rng seed"]
  show ?thesis
  proof (cases "vs = 0 \<or> length ?rest \<le> vs")
    case True
    then have "train_test_split None vs ?xr ?yr = Inl ValueError"
      by (intro train_test_split_error) auto
    with True False first show ?thesis by (simp add: splitter_def Let_def)
  next
    case v: False
    then have b: "length ?xr = length ?yr" "0 < vs" "vs < length ?xr" by auto
    note second = train_test_split_no_shuffle [OF b, unfolded length_map]
    have cond: "\<not> (length data \<noteq> length labels \<or> ts = 0 \<or> length data \<le> ts \<or> vs = 0
                    \<or> length ?rest \<le> vs)"
      using v False by simp
    have lhs: "splitter rng seed ts vs data labels =
        Inr \<lparr>x_train = take (length ?rest - vs) ?xr, y_train = take (length ?rest - vs) ?yr,
             x_val = drop (length ?rest - vs) ?xr, y_val = drop (length ?rest - vs) ?yr,
             x_test = map ((!) data) (take ts (rng seed (length data))),
             y_test = map ((!) labels) (take ts (rng seed (length data)))\<rparr>"
      by (simp only: splitter_def first second sum.case prod.case)
    show ?thesis
      by (simp only: lhs Let_def cond if_False)
  qed
qed

lemma splitter_indices_cases:
  "splitter_indices rng seed ts vs n =
     (let perm = rng seed n; rest = drop ts perm; k = length rest - vs
      in if ts = 0 \<or> n \<le> ts \<or> vs = 0 \<or> length rest \<le> vs
         then Inl ValueError
         else Inr (take k rest, drop k rest, take ts perm))"
proof (cases "ts = 0 \<or> n \<le> ts")
  case True
  then have "split_indices (Some (rng seed)) ts n = Inl ValueError"
    by (rule split_indices_error)
  with True show ?thesis by (auto simp: splitter_indices_def Let_def)
next
  case False
  let ?rest = "drop ts (rng seed n)"
  from False have first: "split_indices (Some (rng seed)) ts n = Inr (?rest, take ts (rng seed n))"
    by (simp add: split_indices_def)
  show ?thesis
  proof (cases "vs = 0 \<or> length ?rest \<le> vs")
    case True
    then have "split_indices None vs (length ?rest) = Inl ValueError"
      by (rule split_indices_error)
    with True False first show ?thesis by (simp add: splitter_indices_def Let_def)
  next
    case v: False
    then have second: "split_indices None vs (length ?rest)
        = Inr ([0..<length ?rest - vs], [length ?rest - vs..<length ?rest])"
      by (simp add: split_indices_def)
    have t: "map ((!) ?rest) [0..<length ?rest - vs] = take (length ?rest - vs) ?rest"
      by (rule map_nth_upt_take) simp
    have d: "map ((!) ?rest) [length ?rest - vs..<length ?rest] = drop (length ?rest - vs) ?rest"
      by (rule map_nth_upt_drop)
    have cond: "\<not> (ts = 0 \<or> n \<le> ts \<or> vs = 0 \<or> length ?rest \<le> vs)"
      using v False by simp
    have lhs: "splitter_indices rng seed ts vs n =
        Inr (take (length ?rest - vs) ?rest, drop (length ?rest - vs) ?rest, take ts (rng seed n))"
      by (simp only: splitter_indices_def first second sum.case prod.case t d)
    show ?thesis
      by (simp only: lhs Let_def cond if_False)
  qed
qed


lemma distinct_append3:
  "distinct (a @ b @ c) \<Longrightarrow> set a \<inter> set b = {} \<and> set a \<inter> set c = {} \<and> set b \<inter> set c = {}"
  by auto

lemma splitter_parts:
  assumes perm: "mset (rng seed (length data)) = mset [0..<length data]"
  shows "splitter rng seed ts vs data labels = Inr s \<Longrightarrow>
           length (x_train s) + length (x_val s) + length (x_test s) = length data"
    and "splitter rng seed ts vs data labels = Inr s \<Longrightarrow>
         \<exists>tr va te.
           splitter_indices rng seed ts vs (length data) = Inr (tr, va, te)
           \<and> x_train s = map ((!) data) tr \<and> x_val s = map ((!) data) va
           \<and> x_test s = map ((!) data) te
           \<and> y_train s = map ((!) labels) tr \<and> y_val s = map ((!) labels) va
           \<and> y_test s = map ((!) labels) te
           \<and> distinct (tr @ va @ te)
           \<and> set tr \<inter> set va = {} \<and> set tr \<inter> set te = {} \<and> set va \<inter> set te = {}
           \<and> set tr \<union> set va \<union> set te = {0..<length data}"
    and "splitter rng seed ts vs data labels = Inr s \<Longrightarrow>
           mset (x_train s) + mset (x_val s) + mset (x_test s) = mset data"
    and "length data = length labels \<Longrightarrow> 0 < ts \<Longrightarrow> 0 < vs \<Longrightarrow> ts + vs < length data \<Longrightarrow>
           \<exists>s'. splitter rng seed ts vs data labels = Inr s'"
proof -
  let ?n = "length data"
  let ?perm = "rng seed ?n"
  let ?rest = "drop ts ?perm"
  let ?k = "length ?rest - vs"
  let ?tr = "take ?k ?rest" and ?va = "drop ?k ?rest" and ?te = "take ts ?perm"
  have len: "length ?perm = ?n"
    using mset_eq_length [OF perm] by simp
  show "length data = length labels \<Longrightarrow> 0 < ts \<Longrightarrow> 0 < vs \<Longrightarrow> ts + vs < length data \<Longrightarrow>
           \<exists>s'. splitter rng seed ts vs data labels = Inr s'"
    unfolding splitter_cases Let_def using len by auto
  have all: "mset (?tr @ ?va @ ?te) = mset [0..<?n]"
  proof -
    have a1: "?tr @ ?va = ?rest" by (rule append_take_drop_id)
    have "mset (?tr @ ?va @ ?te) = mset (?tr @ ?va) + mset ?te"
      by (simp only: append_assoc [symmetric] mset_append)
    also have "\<dots> = mset (?te @ ?rest)" by (simp only: a1 mset_append add.commute)
    also have "\<dots> = mset ?perm" by (simp only: append_take_drop_id)
    finally show ?thesis using perm by simp
  qed
  have dist: "distinct (?tr @ ?va @ ?te)"
    using all distinct_upt mset_eq_imp_distinct_iff by blast
  have sets: "set (?tr @ ?va @ ?te) = {0..<?n}"
    using mset_eq_setD [OF all] by simp
  assume ok: "splitter rng seed ts vs data labels = Inr s"
  have cond: "\<not> (length data \<noteq> length labels \<or> ts = 0 \<or> ?n \<le> ts \<or> vs = 0 \<or> length ?rest \<le> vs)"
    using ok unfolding splitter_cases Let_def by (auto split: if_splits)
  have s: "s = \<lparr>x_train = take ?k (map ((!) data) ?rest), y_train = take ?k (map ((!) labels) ?rest),
                 x_val = drop ?k (map ((!) data) ?rest), y_val = drop ?k (map ((!) labels) ?rest),
                 x_test = map ((!) data) ?te, y_test = map ((!) labels) ?te\<rparr>"
    using ok unfolding splitter_cases Let_def by (simp only: cond if_False sum.inject)
  have idx: "splitter_indices rng seed ts vs ?n = Inr (?tr, ?va, ?te)"
    unfolding splitter_indices_cases Let_def using cond by simp
  show "length (x_train s) + length (x_val s) + length (x_test s) = length data"
    using cond len by (auto simp add: s)
  show "\<exists>tr va te.
           splitter_indices rng seed ts vs (length data) = Inr (tr, va, te)
           \<and> x_train s = map ((!) data) tr \<and> x_val s = map ((!) data) va
           \<and> x_test s = map ((!) data) te
           \<and> y_train s = map ((!) labels) tr \<and> y_val s = map ((!) labels) va
           \<and> y_test s = map ((!) labels) te
           \<and> distinct (tr @ va @ te)
           \<and> set tr \<inter> set va = {} \<and> set tr \<inter> set te = {} \<and> set va \<inter> set te = {}
           \<and> set tr \<union> set va \<union> set te = {0..<length data}"
  proof (intro exI conjI)
    show "splitter_indices rng seed ts vs ?n = Inr (?tr, ?va, ?te)" by (rule idx)
    show "distinct (?tr @ ?va @ ?te)" by (rule dist)
    show "set ?tr \<inter> set ?va = {}" "set ?tr \<inter> set ?te = {}" "set ?va \<inter> set ?te = {}"
      using distinct_append3 [OF dist] by blast+
    show "set ?tr \<union> set ?va \<union> set ?te = {0..<?n}"
      using sets by (simp only: set_append Un_assoc)
  qed (simp_all add: s take_map drop_map)
  have parts: "x_train s = map ((!) data) ?tr" "x_val s = map ((!) data) ?va"
    "x_test s = map ((!) data) ?te"
    by (simp_all add: s take_map drop_map)
  have "mset (x_train s) + mset (x_val s) + mset (x_test s)
          = mset (map ((!) data) (?tr @ ?va @ ?te))"
    by (simp only: parts map_append mset_append add.assoc)
  also have "\<dots> = image_mset ((!) data) (mset [0..<?n])"
    by (simp only: mset_map all)
  also have "\<dots> = mset (map ((!) data) [0..<?n])" by (simp only: mset_map)
  also have "\<dots> = mset data" by (simp only: map_nth)
  finally show "mset (x_train s) + mset (x_val s) + mset (x_test s) = mset data" .
qed

text \<open>
  C7. Whenever the generator hands out a permutation of the positions, the three parts
  the splitter produces have as many documents together as the input, and they are read
  at position lists \<open>tr\<close>, \<open>va\<close>, \<open>te\<close> that are pairwise disjoint, without
  repetition, and cover every position: no document is in more than one part, none is
  lost. The splitter does produce the parts when the two reserved counts are positive and
  leave at least one document for training.
\<close>

theorem splitter_partition:
  assumes perm: "mset (rng seed (length data)) = mset [0..<length data]"
  shows "(splitter rng seed ts vs data labels = Inr s \<longrightarrow>
            length (x_train s) + length (x_val s) + length (x_test s) = length data
            \<and> mset (x_train s) + mset (x_val s) + mset (x_test s) = mset data
            \<and> (\<exists>tr va te.
                  splitter_indices rng seed ts vs (length data) = Inr (tr, va, te)
                  \<and> x_train s = map ((!) data) tr \<and> x_val s = map ((!) data) va
                  \<and> x_test s = map ((!) data) te
                  \<and> y_train s = map ((!) labels) tr \<and> y_val s = map ((!) labels) va
                  \<and> y_test s = map ((!) labels) te
                  \<and> distinct (tr @ va @ te)
                  \<and> set tr \<inter> set va = {} \<and> set tr \<inter> set te = {} \<and> set va \<inter> set te = {}
                  \<and> set tr \<union> set va \<union> set te = {0..<length data}))
         \<and> (length data = length labels \<and> 0 < ts \<and> 0 < vs \<and> ts + vs < length data \<longrightarrow>
              (\<exists>s'. splitter rng seed ts vs data labels = Inr s'))"
proof (intro conjI impI)
  assume ok: "splitter rng seed ts vs data labels = Inr s"
  show "length (x_train s) + length (x_val s) + length (x_test s) = length data"
    by (rule splitter_parts(1) [OF perm ok])
  show "mset (x_train s) + mset (x_val s) + mset (x_test s) = mset data"
    by (rule splitter_parts(3) [OF perm ok])
  show "\<exists>tr va te.
          splitter_indices rng seed ts vs (length data) = Inr (tr, va, te)
          \<and> x_train s = map ((!) data) tr \<and> x_val s = map ((!) data) va
          \<and> x_test s = map ((!) data) te
          \<and> y_train s = map ((!) labels) tr \<and> y_val s = map ((!) labels) va
          \<and> y_test s = map ((!) labels) te
          \<and> distinct (tr @ va @ te)
          \<and> set tr \<inter> set va = {} \<and> set tr \<inter> set te = {} \<and> set va \<inter> set te = {}
          \<and> set tr \<union> set va \<union> set te = {0..<length data}"
    by (rule splitter_parts(2) [OF perm ok])
next
  assume "length data = length labels \<and> 0 < ts \<and> 0 < vs \<and> ts + vs < length data"
  then show "\<exists>s'. splitter rng seed ts vs data labels = Inr s'"
    using splitter_parts(4) [of rng seed data labels ts vs, OF perm] by blast
qed

theorem splitter_partition_witness:
  "splitter (\<lambda>seed n. rotate seed [0..<n]) 42 2 1 ''abcde'' [0, 0, 1, 1, 2 :: nat]
     = Inr \<lparr>x_train = ''ea'', y_train = [2, 0], x_val = ''b'', y_val = [0],
            x_test = ''cd'', y_test = [1, 1]\<rparr>
   \<and> length ''ea'' + length ''b'' + length ''cd'' = length ''abcde''
   \<and> mset ''ea'' + mset ''b'' + mset ''cd'' = mset ''abcde''
   \<and> splitter_indices (\<lambda>seed n. rotate seed [0..<n]) 42 2 1 (length ''abcde'')
       = Inr ([4, 0], [1], [2, 3])
   \<and> distinct ([4, 0] @ [1] @ [2, 3 :: nat])
   \<and> (\<exists>s'. splitter (\<lambda>seed n. rotate seed [0..<n]) 42 2 1 ''abcde'' [0, 0, 1, 1, 2 :: nat]
           = Inr s')"
proof -
  let ?rng = "\<lambda>seed n. rotate seed [0..<n]"
  let ?s = "\<lparr>x_train = ''ea'', y_train = [2, 0 :: nat], x_val = ''b'', y_val = [0],
             x_test = ''cd'', y_test = [1, 1]\<rparr>"
  have perm: "mset (?rng 42 (length ''abcde'')) = mset [0..<length ''abcde'']"
    by (simp only: set_eq_iff_mset_eq_distinct [symmetric] distinct_rotate distinct_upt set_rotate)
  have ok: "splitter ?rng 42 2 1 ''abcde'' [0, 0, 1, 1, 2 :: nat] = Inr ?s"
    by code_simp
  have idx: "splitter_indices ?rng 42 2 1 (length ''abcde'') = Inr ([4, 0], [1], [2, 3])"
    by code_simp
  have pre: "length ''abcde'' = length [0, 0, 1, 1, 2 :: nat] \<and> 0 < (2::nat) \<and> 0 < (1::nat)
               \<and> 2 + 1 < length ''abcde''"
    by simp
  note t = splitter_partition [where rng = ?rng and seed = 42 and data = "''abcde''"
      and labels = "[0, 0, 1, 1, 2 :: nat]" and ts = 2 and vs = 1 and s = ?s, OF perm]
  from t ok have a: "length (x_train ?s) + length (x_val ?s) + length (x_test ?s)
      = length ''abcde''" by blast
  from t ok have b: "mset (x_train ?s) + mset (x_val ?s) + mset (x_test ?s) = mset ''abcde''"
    by blast
  from t ok obtain tr va te where
    i: "splitter_indices ?rng 42 2 1 (length ''abcde'') = Inr (tr, va, te)"
    and d: "distinct (tr @ va @ te)"
    by blast
  from i d idx have c: "distinct ([4, 0] @ [1] @ [2, 3 :: nat])" by simp
  from t pre have e: "\<exists>s'. splitter ?rng 42 2 1 ''abcde'' [0, 0, 1, 1, 2 :: nat] = Inr s'"
    by blast
  from ok a b idx c e show ?thesis
    by (simp only: splits.select_convs)
qed

lemma splitter_runs:
  shows "rng1 seed (length data) = rng2 seed (length data) \<Longrightarrow>
           splitter rng1 seed ts vs data labels = splitter rng2 seed ts vs data labels"
    and "splitter rng seed ts vs data labels = Inr s \<Longrightarrow>
           x_test s = map ((!) data) (take ts (rng seed (length data)))
           \<and> y_test s = map ((!) labels) (take ts (rng seed (length data)))
           \<and> x_train s @ x_val s = map ((!) data) (drop ts (rng seed (length data)))
           \<and> y_train s @ y_val s = map ((!) labels) (drop ts (rng seed (length data)))
           \<and> length (x_val s) = vs \<and> length (y_val s) = vs"
proof -
  show "rng1 seed (length data) = rng2 seed (length data) \<Longrightarrow>
           splitter rng1 seed ts vs data labels = splitter rng2 seed ts vs data labels"
    by (simp only: splitter_cases)
  let ?rest = "drop ts (rng seed (length data))"
  let ?k = "length ?rest - vs"
  assume ok: "splitter rng seed ts vs data labels = Inr s"
  have cond: "\<not> (length data \<noteq> length labels \<or> ts = 0 \<or> length data \<le> ts \<or> vs = 0 \<or> length ?rest \<le> vs)"
    using ok unfolding splitter_cases Let_def by (auto split: if_splits)
  have s: "s = \<lparr>x_train = take ?k (map ((!) data) ?rest), y_train = take ?k (map ((!) labels) ?rest),
                 x_val = drop ?k (map ((!) data) ?rest), y_val = drop ?k (map ((!) labels) ?rest),
                 x_test = map ((!) data) (take ts (rng seed (length data))),
                 y_test = map ((!) labels) (take ts (rng seed (length data)))\<rparr>"
    using ok unfolding splitter_cases Let_def by (simp only: cond if_False sum.inject)
  have "length ?rest - ?k = vs" using cond by auto
  then show "x_test s = map ((!) data) (take ts (rng seed (length data)))
           \<and> y_test s = map ((!) labels) (take ts (rng seed (length data)))
           \<and> x_train s @ x_val s = map ((!) data) (drop ts (rng seed (length data)))
           \<and> y_train s @ y_val s = map ((!) labels) (drop ts (rng seed (length data)))
           \<and> length (x_val s) = vs \<and> length (y_val s) = vs"
    by (simp add: s)
qed


lemma train_test_split_perm_cong:
  "p (length xs) = q (length xs) \<Longrightarrow>
     train_test_split (Some p) t xs ys = train_test_split (Some q) t xs ys"
proof -
  assume pq: "p (length xs) = q (length xs)"
  have "split_indices (Some p) t (length xs) = split_indices (Some q) t (length xs)"
    by (simp only: split_indices_def option.case pq)
  then show ?thesis by (simp only: train_test_split_def)
qed

lemma train_test_split_run_seeded:
  "train_test_split_run seeded permutation True (Some seed) t xs ys g
     = (train_test_split (Some (seeded_permutation seeded permutation seed)) t xs ys, g)"
proof (cases "length xs \<noteq> length ys \<or> length xs \<le> t \<or> t = 0")
  case True
  then have "train_test_split (Some (seeded_permutation seeded permutation seed)) t xs ys
               = Inl ValueError"
    by (intro train_test_split_error) auto
  with True show ?thesis by (simp add: train_test_split_run_def)
next
  case False
  obtain perm g' where d: "permutation (seeded seed) (length xs) = (perm, g')"
    by (cases "permutation (seeded seed) (length xs)")
  have "train_test_split (Some (\<lambda>n. perm)) t xs ys
          = train_test_split (Some (seeded_permutation seeded permutation seed)) t xs ys"
    by (rule train_test_split_perm_cong) (simp add: seeded_permutation_def d)
  with False d show ?thesis
    by (simp add: train_test_split_run_def check_random_state_def)
qed

lemma train_test_split_run_no_shuffle:
  "train_test_split_run seeded permutation False rstate t xs ys g
     = (train_test_split None t xs ys, g)"
  by (simp add: train_test_split_run_def)

lemma splitter_run_eq:
  "splitter_run seeded permutation seed ts vs data labels g
     = (splitter (seeded_permutation seeded permutation) seed ts vs data labels, g)"
  unfolding splitter_run_def splitter_def train_test_split_run_seeded
    train_test_split_run_no_shuffle
  by (auto split: sum.splits prod.splits)

text \<open>
  A split that draws from the global generator does depend on its state: the seed is what
  makes the run reproducible.
\<close>

lemma unseeded_split_depends_on_generator:
  "fst (train_test_split_run (\<lambda>k. k) (\<lambda>g n. (rotate g [0..<n], Suc g)) True None 2
          ''abcde'' [0, 0, 1, 1, 2 :: nat] 0)
     \<noteq> fst (train_test_split_run (\<lambda>k. k) (\<lambda>g n. (rotate g [0..<n], Suc g)) True None 2
            ''abcde'' [0, 0, 1, 1, 2 :: nat] 1)"
  by code_simp

text \<open>
  C8. Two runs of the splitter on the same input with the same seed give identical train,
  validation and test parts, whatever state the global generator is in at the start of
  each run, and the run leaves the global generator as it found it: the first split draws
  from a generator freshly seeded with the seed, the second draws nothing. The test part
  is read at the first \<open>ts\<close> positions of the permutation the seeded generator draws; the
  train and validation parts together are the remaining data in the order the first split
  left it, and the validation part is its last \<open>vs\<close> elements. The parts are produced
  whenever that permutation is one of the positions and the two reserved counts are
  positive and leave a document for training.
\<close>

theorem splitter_deterministic:
  "fst (splitter_run seeded permutation seed ts vs data labels g1)
     = fst (splitter_run seeded permutation seed ts vs data labels g2)
   \<and> snd (splitter_run seeded permutation seed ts vs data labels g1) = g1
   \<and> (fst (splitter_run seeded permutation seed ts vs data labels g1) = Inr s \<longrightarrow>
        x_test s = map ((!) data)
                     (take ts (seeded_permutation seeded permutation seed (length data)))
        \<and> y_test s = map ((!) labels)
                       (take ts (seeded_permutation seeded permutation seed (length data)))
        \<and> x_train s @ x_val s
            = map ((!) data) (drop ts (seeded_permutation seeded permutation seed (length data)))
        \<and> y_train s @ y_val s
            = map ((!) labels) (drop ts (seeded_permutation seeded permutation seed (length data)))
        \<and> length (x_val s) = vs \<and> length (y_val s) = vs)
   \<and> (mset (seeded_permutation seeded permutation seed (length data)) = mset [0..<length data]
        \<and> length data = length labels \<and> 0 < ts \<and> 0 < vs \<and> ts + vs < length data \<longrightarrow>
        (\<exists>s'. fst (splitter_run seeded permutation seed ts vs data labels g1) = Inr s'))"
proof (intro conjI impI)
  let ?rng = "seeded_permutation seeded permutation"
  show "fst (splitter_run seeded permutation seed ts vs data labels g1)
          = fst (splitter_run seeded permutation seed ts vs data labels g2)"
    by (simp only: splitter_run_eq fst_conv)
  show "snd (splitter_run seeded permutation seed ts vs data labels g1) = g1"
    by (simp only: splitter_run_eq snd_conv)
  {
    assume "fst (splitter_run seeded permutation seed ts vs data labels g1) = Inr s"
    then have ok: "splitter ?rng seed ts vs data labels = Inr s"
      by (simp only: splitter_run_eq fst_conv)
    note r = splitter_runs(2) [OF ok]
    from r show "x_test s = map ((!) data) (take ts (?rng seed (length data)))" by blast
    from r show "y_test s = map ((!) labels) (take ts (?rng seed (length data)))" by blast
    from r show "x_train s @ x_val s = map ((!) data) (drop ts (?rng seed (length data)))"
      by blast
    from r show "y_train s @ y_val s = map ((!) labels) (drop ts (?rng seed (length data)))"
      by blast
    from r show "length (x_val s) = vs" by blast
    from r show "length (y_val s) = vs" by blast
  }
  assume pre: "mset (?rng seed (length data)) = mset [0..<length data]
        \<and> length data = length labels \<and> 0 < ts \<and> 0 < vs \<and> ts + vs < length data"
  then have "\<exists>s'. splitter ?rng seed ts vs data labels = Inr s'"
    using splitter_parts(4) [of ?rng seed data labels ts vs] by blast
  then show "\<exists>s'. fst (splitter_run seeded permutation seed ts vs data labels g1) = Inr s'"
    by (simp only: splitter_run_eq fst_conv)
qed

theorem splitter_deterministic_witness:
  "fst (splitter_run (\<lambda>k. k) (\<lambda>g n. (rotate g [0..<n], Suc g)) 42 2 1 ''abcde''
          [0, 0, 1, 1, 2 :: nat] 0)
     = fst (splitter_run (\<lambda>k. k) (\<lambda>g n. (rotate g [0..<n], Suc g)) 42 2 1 ''abcde''
              [0, 0, 1, 1, 2 :: nat] 7)
   \<and> splitter_run (\<lambda>k. k) (\<lambda>g n. (rotate g [0..<n], Suc g)) 42 2 1 ''abcde''
         [0, 0, 1, 1, 2 :: nat] 0
       = (Inr \<lparr>x_train = ''ea'', y_train = [2, 0], x_val = ''b'', y_val = [0],
               x_test = ''cd'', y_test = [1, 1]\<rparr>, 0)
   \<and> seeded_permutation (\<lambda>k. k) (\<lambda>g n. (rotate g [0..<n], Suc g)) 42 (length ''abcde'')
       = [2, 3, 4, 0, 1]
   \<and> ''cd'' = map ((!) ''abcde'') (take 2 [2, 3, 4, 0, 1])
   \<and> ''ea'' @ ''b'' = map ((!) ''abcde'') (drop 2 [2, 3, 4, 0, 1])
   \<and> length ''b'' = 1
   \<and> (\<exists>s'. fst (splitter_run (\<lambda>k. k) (\<lambda>g n. (rotate g [0..<n], Suc g)) 42 2 1 ''abcde''
                  [0, 0, 1, 1, 2 :: nat] 0) = Inr s')"
proof -
  let ?sd = "\<lambda>k::nat. k"
  let ?pm = "\<lambda>(g::nat) n. (rotate g [0..<n], Suc g)"
  let ?s = "\<lparr>x_train = ''ea'', y_train = [2, 0 :: nat], x_val = ''b'', y_val = [0],
             x_test = ''cd'', y_test = [1, 1]\<rparr>"
  have run: "splitter_run ?sd ?pm 42 2 1 ''abcde'' [0, 0, 1, 1, 2 :: nat] 0 = (Inr ?s, 0)"
    by code_simp
  have pm: "seeded_permutation ?sd ?pm 42 (length ''abcde'') = [2, 3, 4, 0, 1]"
    by code_simp
  have perm: "mset (seeded_permutation ?sd ?pm 42 (length ''abcde'')) = mset [0..<length ''abcde'']"
    unfolding seeded_permutation_def fst_conv
    by (simp only: set_eq_iff_mset_eq_distinct [symmetric] distinct_rotate distinct_upt set_rotate)
  have pre: "length ''abcde'' = length [0, 0, 1, 1, 2 :: nat] \<and> 0 < (2::nat) \<and> 0 < (1::nat)
               \<and> 2 + 1 < length ''abcde''"
    by simp
  have ok: "fst (splitter_run ?sd ?pm 42 2 1 ''abcde'' [0, 0, 1, 1, 2 :: nat] 0) = Inr ?s"
    by (simp only: run fst_conv)
  note t = splitter_deterministic [where seeded = ?sd and permutation = ?pm and seed = 42
      and data = "''abcde''" and labels = "[0, 0, 1, 1, 2 :: nat]" and ts = 2 and vs = 1
      and ?g1.0 = 0 and ?g2.0 = 7 and s = ?s, unfolded splits.select_convs pm]
  from t have a: "fst (splitter_run ?sd ?pm 42 2 1 ''abcde'' [0, 0, 1, 1, 2 :: nat] 0)
      = fst (splitter_run ?sd ?pm 42 2 1 ''abcde'' [0, 0, 1, 1, 2 :: nat] 7)" by blast
  from t ok have b: "''cd'' = map ((!) ''abcde'') (take 2 [2, 3, 4, 0, 1])" by blast
  from t ok have c: "''ea'' @ ''b'' = map ((!) ''abcde'') (drop 2 [2, 3, 4, 0, 1])" by blast
  from t ok have d: "length ''b'' = 1" by blast
  from t perm [unfolded pm] pre have e:
    "\<exists>s'. fst (splitter_run ?sd ?pm 42 2 1 ''abcde'' [0, 0, 1, 1, 2 :: nat] 0) = Inr s'"
    by blast
  from a run pm b c d e show ?thesis by blast
qed

subsection \<open>Evaluator\<close>

lemma batches_concat: "0 < bs \<Longrightarrow> concat (batches bs xs) = xs"
proof (induction bs xs rule: batches.induct)
  case (1 bs xs)
  show ?case
  proof (cases "xs = []")
    case True
    then show ?thesis by (simp add: batches.simps)
  next
    case False
    with 1 have "concat (batches bs (drop bs xs)) = drop bs xs" by simp
    with False "1.prems" show ?thesis
      by (subst batches.simps) simp
  qed
qed

lemma div_add_self_Suc: "0 < (b::nat) \<Longrightarrow> (a + b) div b = Suc (a div b)"
  by simp

lemma ceil_div_step:
  fixes n bs :: nat
  assumes "0 < bs" "0 < n"
  shows "(n + bs - 1) div bs = Suc ((n - bs + bs - 1) div bs)"
proof (cases "bs \<le> n")
  case True
  then have "n + bs - 1 = (n - bs + bs - 1) + bs" using assms by simp
  then have "(n + bs - 1) div bs = ((n - bs + bs - 1) + bs) div bs" by simp
  also have "\<dots> = Suc ((n - bs + bs - 1) div bs)" by (rule div_add_self_Suc [OF assms(1)])
  finally show ?thesis .
next
  case False
  then have a: "n - bs = 0" and small: "n - 1 < bs" by simp_all
  have "n + bs - 1 = (n - 1) + bs" using assms by simp
  then have "(n + bs - 1) div bs = ((n - 1) + bs) div bs" by simp
  also have "\<dots> = Suc ((n - 1) div bs)" by (rule div_add_self_Suc [OF assms(1)])
  also have "\<dots> = Suc 0" using small by simp
  finally have l: "(n + bs - 1) div bs = Suc 0" .
  have "(n - bs + bs - 1) div bs = 0" using a assms by simp
  with l show ?thesis by simp
qed

lemma batches_length: "0 < bs \<Longrightarrow> length (batches bs xs) = (length xs + bs - 1) div bs"
proof (induction bs xs rule: batches.induct)
  case (1 bs xs)
  show ?case
  proof (cases "xs = []")
    case True
    with "1.prems" show ?thesis by (simp add: batches.simps)
  next
    case False
    with 1 have ih: "length (batches bs (drop bs xs)) = (length (drop bs xs) + bs - 1) div bs"
      by simp
    from False have "0 < length xs" by simp
    from ceil_div_step [OF "1.prems" this] ih False "1.prems" show ?thesis
      by (subst batches.simps) simp
  qed
qed


lemma max_indices_Inr:
  "max_indices rows = Inr p \<longleftrightarrow> list_all2 (\<lambda>r i. argmax r = Inr i) rows p"
proof (induction rows arbitrary: p)
  case Nil
  show ?case by auto
next
  case (Cons row rows)
  show ?case
    by (cases p) (auto simp: Cons.IH [symmetric] split: sum.splits)
qed

lemma max_indices_total:
  "\<forall>row\<in>set rows. row \<noteq> [] \<Longrightarrow> \<exists>p. max_indices rows = Inr p"
  by (induction rows) (auto simp: argmax_def split: list.splits)

lemma argmax_from_bound: "bi < k \<Longrightarrow> argmax_from xs k best bi < k + length xs"
  by (induction xs k best bi rule: argmax_from.induct) (auto simp: less_Suc_eq)

lemma argmax_bound: "argmax row = Inr i \<Longrightarrow> i < length row"
proof (cases row)
  case Nil
  assume "argmax row = Inr i"
  with Nil show ?thesis by (simp add: argmax_def)
next
  case (Cons x xs)
  assume "argmax row = Inr i"
  with Cons have "i = argmax_from xs 1 x 0" by (simp add: argmax_def)
  moreover have "argmax_from xs 1 x 0 < 1 + length xs" by (rule argmax_from_bound) simp
  ultimately show ?thesis using Cons by simp
qed

lemma eval_batches_inv:
  "eval_batches m c bs st = Inr st' \<Longrightarrow>
     loss st' = loss st + sum_list (map (\<lambda>b. c (map m (map fst b)) (map snd b)) bs)
     \<and> (\<exists>p. pred_vector st' = pred_vector st @ p
            \<and> list_all2 (\<lambda>x i. argmax (m x) = Inr i) (map fst (concat bs)) p
            \<and> correct st' = correct st
                + length (filter (\<lambda>(p, t). p = t) (zip p (map snd (concat bs)))))"
proof (induction bs arbitrary: st)
  case Nil
  then show ?case by simp
next
  case (Cons batch rest)
  let ?out = "map m (map fst batch)" and ?tgt = "map snd batch"
  from Cons.prems obtain pred where pred: "max_indices ?out = Inr pred"
    by (auto simp: Let_def split: sum.splits)
  let ?st1 = "\<lparr>loss = loss st + c ?out ?tgt,
               correct = correct st + length (filter (\<lambda>(p, t). p = t) (zip pred ?tgt)),
               pred_vector = pred_vector st @ pred\<rparr>"
  from Cons.prems pred have run: "eval_batches m c rest ?st1 = Inr st'"
    by (simp add: Let_def)
  from Cons.IH [OF run] obtain p where
    l: "loss st' = loss ?st1 + sum_list (map (\<lambda>b. c (map m (map fst b)) (map snd b)) rest)"
    and pv: "pred_vector st' = pred_vector ?st1 @ p"
    and a2: "list_all2 (\<lambda>x i. argmax (m x) = Inr i) (map fst (concat rest)) p"
    and co: "correct st' = correct ?st1
                + length (filter (\<lambda>(p, t). p = t) (zip p (map snd (concat rest))))"
    by blast
  from pred have a1: "list_all2 (\<lambda>x i. argmax (m x) = Inr i) (map fst batch) pred"
    by (simp add: max_indices_Inr list_all2_map1)
  then have len: "length pred = length ?tgt" by (auto dest: list_all2_lengthD)
  have z: "zip (pred @ p) (map snd (concat (batch # rest)))
             = zip pred ?tgt @ zip p (map snd (concat rest))"
    using len by simp
  have "list_all2 (\<lambda>x i. argmax (m x) = Inr i) (map fst (concat (batch # rest))) (pred @ p)"
    using a1 a2 by (simp add: list_all2_appendI)
  moreover have "pred_vector st' = pred_vector st @ (pred @ p)" using pv by simp
  moreover have "correct st' = correct st
      + length (filter (\<lambda>(p, t). p = t) (zip (pred @ p) (map snd (concat (batch # rest)))))"
    unfolding z using co by simp
  moreover have "loss st' = loss st
      + sum_list (map (\<lambda>b. c (map m (map fst b)) (map snd b)) (batch # rest))"
    using l by simp
  ultimately show ?case by blast
qed

lemma eval_batches_total:
  "\<forall>b\<in>set bs. \<forall>s\<in>set b. m (fst s) \<noteq> [] \<Longrightarrow> \<exists>st'. eval_batches m c bs st = Inr st'"
proof (induction bs arbitrary: st)
  case Nil
  show ?case by simp
next
  case (Cons batch rest)
  then have "\<forall>row\<in>set (map m (map fst batch)). row \<noteq> []" by auto
  from max_indices_total [OF this] obtain p where "max_indices (map m (map fst batch)) = Inr p" ..
  moreover have "\<forall>b\<in>set rest. \<forall>s\<in>set b. m (fst s) \<noteq> []" using Cons.prems by simp
  ultimately show ?case using Cons.IH by (simp add: Let_def)
qed

lemma loader_len_batches:
  "0 < batch_size l \<Longrightarrow> loader_len l = length (loader_batches l)"
  by (simp add: loader_len_def loader_batches_def batches_length)

lemma batches_Nil_iff: "0 < bs \<Longrightarrow> batches bs xs = [] \<longleftrightarrow> xs = []"
  by (subst batches.simps) simp

lemma evaluate_loss:
  shows "evaluate model criterion validation_loader loader = Inr r \<Longrightarrow>
           mean_loss r = sum_list (batch_losses model criterion loader)
                           / real (loader_len validation_loader)"
    and "0 < batch_size validation_loader \<Longrightarrow>
           loader_len validation_loader = length (loader_batches validation_loader)"
    and "0 < batch_size validation_loader \<Longrightarrow> dataset validation_loader \<noteq> [] \<Longrightarrow>
         0 < batch_size loader \<Longrightarrow> dataset loader \<noteq> [] \<Longrightarrow>
         \<forall>s\<in>set (dataset loader). model (fst s) \<noteq> [] \<Longrightarrow>
           \<exists>r'. evaluate model criterion validation_loader loader = Inr r'"
proof -
  let ?st0 = "\<lparr>loss = 0, correct = 0, pred_vector = []\<rparr>"
  show "0 < batch_size validation_loader \<Longrightarrow>
           loader_len validation_loader = length (loader_batches validation_loader)"
    by (rule loader_len_batches)
  {
    assume vb: "0 < batch_size validation_loader" and vd: "dataset validation_loader \<noteq> []"
      and lb: "0 < batch_size loader" and ld: "dataset loader \<noteq> []"
      and rows: "\<forall>s\<in>set (dataset loader). model (fst s) \<noteq> []"
    have "set (concat (loader_batches loader)) = set (dataset loader)"
      using lb by (simp add: loader_batches_def batches_concat)
    with rows have "\<forall>b\<in>set (loader_batches loader). \<forall>s\<in>set b. model (fst s) \<noteq> []"
      by auto
    from eval_batches_total [OF this] obtain st where
      "eval_batches model criterion (loader_batches loader) ?st0 = Inr st" by blast
    moreover have "loader_batches loader \<noteq> []"
      using lb ld by (simp add: loader_batches_def batches_Nil_iff)
    moreover have "loader_batches validation_loader \<noteq> []"
      using vb vd by (simp add: loader_batches_def batches_Nil_iff)
    then have "loader_len validation_loader \<noteq> 0"
      using vb by (simp add: loader_len_batches)
    ultimately show "\<exists>r'. evaluate model criterion validation_loader loader = Inr r'"
      by (simp add: evaluate_def)
  }
  assume ev: "evaluate model criterion validation_loader loader = Inr r"
  then obtain st where run: "eval_batches model criterion (loader_batches loader) ?st0 = Inr st"
    and r: "mean_loss r = loss st / real (loader_len validation_loader)"
    by (auto simp: evaluate_def split: sum.splits if_splits)
  from eval_batches_inv [OF run] have "loss st = sum_list (batch_losses model criterion loader)"
    by (simp add: batch_losses_def)
  with r show "mean_loss r = sum_list (batch_losses model criterion loader)
                           / real (loader_len validation_loader)"
    by simp
qed

text \<open>
  C2. Whatever loader is evaluated, the mean loss that \<open>evaluate\<close> reports is the sum of
  the losses of that loader's batches divided by the number of batches of the validation
  loader: not by the number of batches of the evaluated loader, not by its number of
  examples. The validation loader's length is the number of batches it yields. The
  evaluation returns a result whenever both loaders hold data and the network's rows are
  not empty.
\<close>

theorem evaluate_mean_loss:
  "(evaluate model criterion validation_loader loader = Inr r \<longrightarrow>
      mean_loss r = sum_list (batch_losses model criterion loader)
                      / real (loader_len validation_loader))
   \<and> (0 < batch_size validation_loader \<longrightarrow>
        loader_len validation_loader = length (loader_batches validation_loader))
   \<and> (0 < batch_size validation_loader \<and> dataset validation_loader \<noteq> []
        \<and> 0 < batch_size loader \<and> dataset loader \<noteq> []
        \<and> (\<forall>s\<in>set (dataset loader). model (fst s) \<noteq> []) \<longrightarrow>
        (\<exists>r'. evaluate model criterion validation_loader loader = Inr r'))"
proof (intro conjI impI)
  assume "evaluate model criterion validation_loader loader = Inr r"
  then show "mean_loss r = sum_list (batch_losses model criterion loader)
                             / real (loader_len validation_loader)"
    by (rule evaluate_loss(1))
next
  assume "0 < batch_size validation_loader"
  then show "loader_len validation_loader = length (loader_batches validation_loader)"
    by (rule evaluate_loss(2))
next
  assume "0 < batch_size validation_loader \<and> dataset validation_loader \<noteq> []
        \<and> 0 < batch_size loader \<and> dataset loader \<noteq> []
        \<and> (\<forall>s\<in>set (dataset loader). model (fst s) \<noteq> [])"
  then show "\<exists>r'. evaluate model criterion validation_loader loader = Inr r'"
    using evaluate_loss(3) [of validation_loader loader model criterion] by blast
qed

theorem evaluate_mean_loss_witness:
  "evaluate (\<lambda>x::nat. [0, 1]) (\<lambda>output target. 3)
      \<lparr>dataset = [(0, 1)], batch_size = 2\<rparr>
      \<lparr>dataset = [(0, 1), (1, 0), (2, 1)], batch_size = 2\<rparr>
    = Inr \<lparr>mean_loss = 6, n_correct = 2, accuracy = 200 / 3, predictions = [1, 1, 1]\<rparr>
   \<and> (6::real) = sum_list (batch_losses (\<lambda>x::nat. [0, 1]) (\<lambda>output target. 3)
                      \<lparr>dataset = [(0, 1), (1, 0), (2, 1)], batch_size = 2\<rparr>)
                  / real (loader_len \<lparr>dataset = [(0::nat, 1)], batch_size = 2\<rparr>)
   \<and> loader_len \<lparr>dataset = [(0::nat, 1)], batch_size = 2\<rparr>
       = length (loader_batches \<lparr>dataset = [(0::nat, 1)], batch_size = 2\<rparr>)
   \<and> loader_len \<lparr>dataset = [(0::nat, 1)], batch_size = 2\<rparr> = 1
   \<and> loader_len \<lparr>dataset = [(0::nat, 1), (1, 0), (2, 1)], batch_size = 2\<rparr> = 2
   \<and> (\<exists>r'. evaluate (\<lambda>x::nat. [0, 1]) (\<lambda>output target. 3)
          \<lparr>dataset = [(0, 1)], batch_size = 2\<rparr>
          \<lparr>dataset = [(0, 1), (1, 0), (2, 1)], batch_size = 2\<rparr> = Inr r')"
proof -
  let ?m = "\<lambda>x::nat. [0, 1 :: real]"
  let ?c = "\<lambda>(output :: real list list) (target :: nat list). 3 :: real"
  let ?vl = "\<lparr>dataset = [(0::nat, 1::nat)], batch_size = 2\<rparr>"
  let ?tl = "\<lparr>dataset = [(0::nat, 1::nat), (1, 0), (2, 1)], batch_size = 2\<rparr>"
  let ?r = "\<lparr>mean_loss = 6, n_correct = 2, accuracy = 200 / 3, predictions = [1, 1, 1]\<rparr>"
  have ev: "evaluate ?m ?c ?vl ?tl = Inr ?r"
    by code_simp
  have l1: "loader_len ?vl = 1" by code_simp
  have l2: "loader_len ?tl = 2" by code_simp
  have h1: "0 < batch_size ?vl" by simp
  have h: "0 < batch_size ?vl \<and> dataset ?vl \<noteq> [] \<and> 0 < batch_size ?tl \<and> dataset ?tl \<noteq> []
             \<and> (\<forall>s\<in>set (dataset ?tl). ?m (fst s) \<noteq> [])"
    by simp
  note t = evaluate_mean_loss [where model = ?m and criterion = ?c and validation_loader = ?vl
      and loader = ?tl and r = ?r]
  from t ev have "mean_loss ?r = sum_list (batch_losses ?m ?c ?tl) / real (loader_len ?vl)"
    by blast
  then have a: "(6::real) = sum_list (batch_losses ?m ?c ?tl) / real (loader_len ?vl)"
    by (simp only: eval_result.select_convs)
  from t h1 have b: "loader_len ?vl = length (loader_batches ?vl)" by blast
  from t h have c: "\<exists>r'. evaluate ?m ?c ?vl ?tl = Inr r'" by blast
  from ev a b c l1 l2 show ?thesis by blast
qed

subsection \<open>Confusion matrix\<close>

lemma indicator_sum_upt:
  "sum_list (map (\<lambda>j. if P \<and> p = j then (1::nat) else 0) [0..<n]) = (if P \<and> p < n then 1 else 0)"
  by (induction n) (auto simp: less_Suc_eq)

lemma row_sum_count:
  "\<forall>z\<in>set zs. snd z < n \<Longrightarrow>
     sum_list (map (\<lambda>j. length (filter (\<lambda>(t, p). t = i \<and> p = j) zs)) [0..<n])
       = length (filter (\<lambda>(t, p). t = i) zs)"
proof (induction zs)
  case Nil
  show ?case by simp
next
  case (Cons z zs)
  obtain t p where z: "z = (t, p)" by (cases z)
  from Cons.prems z have p: "p < n" by simp
  have "sum_list (map (\<lambda>j. length (filter (\<lambda>(t, p). t = i \<and> p = j) (z # zs))) [0..<n])
        = sum_list (map (\<lambda>j. (if t = i \<and> p = j then 1 else 0)
                                + length (filter (\<lambda>(t, p). t = i \<and> p = j) zs)) [0..<n])"
    by (rule arg_cong [where f = sum_list]) (simp add: z)
  also have "\<dots> = sum_list (map (\<lambda>j. if t = i \<and> p = j then 1 else 0) [0..<n])
                   + sum_list (map (\<lambda>j. length (filter (\<lambda>(t, p). t = i \<and> p = j) zs)) [0..<n])"
    by (rule sum_list_addf)
  also have "\<dots> = (if t = i \<and> p < n then 1 else 0) + length (filter (\<lambda>(t, p). t = i) zs)"
    using Cons by (simp only: indicator_sum_upt) simp
  also have "\<dots> = length (filter (\<lambda>(t, p). t = i) (z # zs))"
    using p by (simp add: z)
  finally show ?case .
qed

lemma diag_sum_count:
  "\<forall>z\<in>set zs. snd z < n \<Longrightarrow>
     sum_list (map (\<lambda>i. length (filter (\<lambda>(t, p). t = i \<and> p = i) zs)) [0..<n])
       = length (filter (\<lambda>(t, p). t = p) zs)"
proof (induction zs)
  case Nil
  show ?case by simp
next
  case (Cons z zs)
  obtain t p where z: "z = (t, p)" by (cases z)
  from Cons.prems z have p: "p < n" by simp
  have "sum_list (map (\<lambda>i. length (filter (\<lambda>(t, p). t = i \<and> p = i) (z # zs))) [0..<n])
        = sum_list (map (\<lambda>i. (if t = p \<and> p = i then 1 else 0)
                                + length (filter (\<lambda>(t, p). t = i \<and> p = i) zs)) [0..<n])"
    by (rule arg_cong [where f = sum_list]) (auto simp: z)
  also have "\<dots> = sum_list (map (\<lambda>i. if t = p \<and> p = i then 1 else 0) [0..<n])
                   + sum_list (map (\<lambda>i. length (filter (\<lambda>(t, p). t = i \<and> p = i) zs)) [0..<n])"
    by (rule sum_list_addf)
  also have "\<dots> = (if t = p \<and> p < n then 1 else 0) + length (filter (\<lambda>(t, p). t = p) zs)"
    using Cons by (simp only: indicator_sum_upt) simp
  also have "\<dots> = length (filter (\<lambda>(t, p). t = p) (z # zs))"
    using p by (simp add: z)
  finally show ?case .
qed

lemma filter_zip_fst_count:
  "length ys = length ps \<Longrightarrow> length (filter (\<lambda>(t, p). t = i) (zip ys ps)) = count_list ys i"
  by (induction ys ps rule: list_induct2) auto

lemma filter_zip_swap:
  "length (filter (\<lambda>(p, t). p = t) (zip ps ys)) = length (filter (\<lambda>(t, p). t = p) (zip ys ps))"
proof (induction ps arbitrary: ys)
  case Nil
  show ?case by simp
next
  case (Cons p ps)
  show ?case by (cases ys) (auto simp: Cons.IH)
qed


lemma confusion_matrix_Inr:
  "confusion_matrix y_true y_pred n = Inr cm \<Longrightarrow>
     length y_true = length y_pred
     \<and> cm = map (\<lambda>i. map (\<lambda>j. length (filter (\<lambda>(t, p). t = i \<and> p = j) (zip y_true y_pred)))
                        [0..<n]) [0..<n]"
  by (auto simp: confusion_matrix_def split: if_splits)

lemma confusion_matrix_counts:
  assumes rows: "\<forall>s\<in>set (dataset loader). length (model (fst s)) = n_labels"
    and bs: "0 < batch_size loader"
    and ev: "evaluate model criterion validation_loader loader = Inr r"
  shows "confusion_matrix (map snd (dataset loader)) (predictions r) n_labels = Inr cm \<Longrightarrow>
           length cm = n_labels
           \<and> (\<forall>i<n_labels. \<forall>j<n_labels.
                 cm ! i ! j = length (filter (\<lambda>(t, p). t = i \<and> p = j)
                                       (zip (map snd (dataset loader)) (predictions r))))
           \<and> (\<forall>i<n_labels. sum_list (cm ! i) = count_list (map snd (dataset loader)) i)
           \<and> sum_list (diagonal cm) = n_correct r
           \<and> (\<forall>i<n_labels. per_class_accuracy cm ! i
                 = (if sum_list (cm ! i) = 0 then None
                    else Some (real (cm ! i ! i) / real (sum_list (cm ! i)))))"
    and "\<exists>t\<in>set (map snd (dataset loader)). t < n_labels \<Longrightarrow>
           \<exists>cm'. confusion_matrix (map snd (dataset loader)) (predictions r) n_labels = Inr cm'"
proof -
  let ?ys = "map snd (dataset loader)" and ?ps = "predictions r"
  let ?zs = "zip ?ys ?ps"
  let ?st0 = "\<lparr>loss = 0, correct = 0, pred_vector = []\<rparr>"
  from ev obtain st where run: "eval_batches model criterion (loader_batches loader) ?st0 = Inr st"
    and ps: "predictions r = pred_vector st" and nc: "n_correct r = correct st"
    by (auto simp: evaluate_def split: sum.splits if_splits)
  have cc: "concat (loader_batches loader) = dataset loader"
    using bs by (simp add: loader_batches_def batches_concat)
  from eval_batches_inv [OF run] have
    a2: "list_all2 (\<lambda>x i. argmax (model x) = Inr i) (map fst (dataset loader)) ?ps"
    and co: "n_correct r = length (filter (\<lambda>(p, t). p = t) (zip ?ps ?ys))"
    by (auto simp: cc ps nc)
  from a2 have len: "length ?ys = length ?ps" by (auto dest: list_all2_lengthD)
  have below: "\<forall>z\<in>set ?zs. snd z < n_labels"
  proof
    fix z assume "z \<in> set ?zs"
    then obtain k where k: "k < length ?ps" and z: "z = (?ys ! k, ?ps ! k)"
      using len by (auto simp: in_set_conv_nth)
    from a2 k len have "argmax (model (fst (dataset loader ! k))) = Inr (?ps ! k)"
      by (simp add: list_all2_conv_all_nth)
    then have "?ps ! k < length (model (fst (dataset loader ! k)))" by (rule argmax_bound)
    moreover have "dataset loader ! k \<in> set (dataset loader)" using k len by simp
    ultimately show "snd z < n_labels" using rows z by simp
  qed
  show "\<exists>t\<in>set ?ys. t < n_labels \<Longrightarrow> \<exists>cm'. confusion_matrix ?ys ?ps n_labels = Inr cm'"
  proof -
    assume "\<exists>t\<in>set ?ys. t < n_labels"
    then have "\<not> list_all (\<lambda>t. n_labels \<le> t) ?ys"
      unfolding list_all_iff by (meson not_le)
    with len show ?thesis by (simp add: confusion_matrix_def)
  qed
  assume "confusion_matrix ?ys ?ps n_labels = Inr cm"
  from confusion_matrix_Inr [OF this] have
    cm: "cm = map (\<lambda>i. map (\<lambda>j. length (filter (\<lambda>(t, p). t = i \<and> p = j) ?zs)) [0..<n_labels])
                [0..<n_labels]"
    by simp
  have lcm: "length cm = n_labels" by (simp add: cm)
  have cell: "\<forall>i<n_labels. \<forall>j<n_labels.
                cm ! i ! j = length (filter (\<lambda>(t, p). t = i \<and> p = j) ?zs)"
    by (simp add: cm)
  have rowsum: "\<forall>i<n_labels. sum_list (cm ! i) = count_list ?ys i"
  proof (intro allI impI)
    fix i assume i: "i < n_labels"
    then have "sum_list (cm ! i)
        = sum_list (map (\<lambda>j. length (filter (\<lambda>(t, p). t = i \<and> p = j) ?zs)) [0..<n_labels])"
      by (simp add: cm)
    also have "\<dots> = length (filter (\<lambda>(t, p). t = i) ?zs)"
      by (rule row_sum_count [OF below])
    also have "\<dots> = count_list ?ys i" by (rule filter_zip_fst_count [OF len])
    finally show "sum_list (cm ! i) = count_list ?ys i" .
  qed
  have "diagonal cm = map (\<lambda>i. length (filter (\<lambda>(t, p). t = i \<and> p = i) ?zs)) [0..<n_labels]"
    unfolding diagonal_def lcm using cell by simp
  then have "sum_list (diagonal cm) = length (filter (\<lambda>(t, p). t = p) ?zs)"
    by (simp only: diag_sum_count [OF below])
  also have "\<dots> = n_correct r" by (simp only: co filter_zip_swap)
  finally have diag: "sum_list (diagonal cm) = n_correct r" .
  have acc: "\<forall>i<n_labels. per_class_accuracy cm ! i
                 = (if sum_list (cm ! i) = 0 then None
                    else Some (real (cm ! i ! i) / real (sum_list (cm ! i))))"
    by (simp add: per_class_accuracy_def diagonal_def lcm)
  from lcm cell rowsum diag acc
  show "length cm = n_labels
           \<and> (\<forall>i<n_labels. \<forall>j<n_labels.
                 cm ! i ! j = length (filter (\<lambda>(t, p). t = i \<and> p = j) ?zs))
           \<and> (\<forall>i<n_labels. sum_list (cm ! i) = count_list ?ys i)
           \<and> sum_list (diagonal cm) = n_correct r
           \<and> (\<forall>i<n_labels. per_class_accuracy cm ! i
                 = (if sum_list (cm ! i) = 0 then None
                    else Some (real (cm ! i ! i) / real (sum_list (cm ! i)))))"
    by blast
qed

text \<open>
  C9. For a loader that was evaluated, with a network whose rows have one entry per class:
  the confusion matrix of the set's true labels and the returned predictions has a row per
  class, entry \<open>(i, j)\<close> counts the samples of true class \<open>i\<close> predicted as \<open>j\<close>,
  every row sum is the number of true instances of its class, the diagonal sums to the
  number of correct predictions the evaluator counted, and the accuracy of a class is its
  diagonal entry divided by its row sum (not a number for a class without instances).
\<close>

theorem confusion_matrix_consistent:
  assumes rows: "\<forall>s\<in>set (dataset loader). length (model (fst s)) = n_labels"
    and bs: "0 < batch_size loader"
    and ev: "evaluate model criterion validation_loader loader = Inr r"
  shows "(confusion_matrix (map snd (dataset loader)) (predictions r) n_labels = Inr cm \<longrightarrow>
            length cm = n_labels
            \<and> (\<forall>i<n_labels. \<forall>j<n_labels.
                  cm ! i ! j = length (filter (\<lambda>(t, p). t = i \<and> p = j)
                                        (zip (map snd (dataset loader)) (predictions r))))
            \<and> (\<forall>i<n_labels. sum_list (cm ! i) = count_list (map snd (dataset loader)) i)
            \<and> sum_list (diagonal cm) = n_correct r
            \<and> (\<forall>i<n_labels. per_class_accuracy cm ! i
                  = (if sum_list (cm ! i) = 0 then None
                     else Some (real (cm ! i ! i) / real (sum_list (cm ! i))))))
         \<and> ((\<exists>t\<in>set (map snd (dataset loader)). t < n_labels) \<longrightarrow>
              (\<exists>cm'. confusion_matrix (map snd (dataset loader)) (predictions r) n_labels
                        = Inr cm'))"
proof (rule conjI; rule impI)
  assume "confusion_matrix (map snd (dataset loader)) (predictions r) n_labels = Inr cm"
  then show "length cm = n_labels
            \<and> (\<forall>i<n_labels. \<forall>j<n_labels.
                  cm ! i ! j = length (filter (\<lambda>(t, p). t = i \<and> p = j)
                                        (zip (map snd (dataset loader)) (predictions r))))
            \<and> (\<forall>i<n_labels. sum_list (cm ! i) = count_list (map snd (dataset loader)) i)
            \<and> sum_list (diagonal cm) = n_correct r
            \<and> (\<forall>i<n_labels. per_class_accuracy cm ! i
                  = (if sum_list (cm ! i) = 0 then None
                     else Some (real (cm ! i ! i) / real (sum_list (cm ! i)))))"
    by (rule confusion_matrix_counts(1) [OF rows bs ev])
next
  assume "\<exists>t\<in>set (map snd (dataset loader)). t < n_labels"
  then show "\<exists>cm'. confusion_matrix (map snd (dataset loader)) (predictions r) n_labels = Inr cm'"
    by (rule confusion_matrix_counts(2) [OF rows bs ev])
qed

theorem confusion_matrix_consistent_witness:
  "evaluate (\<lambda>x::nat. [real x, 1, 0]) (\<lambda>output target. 3)
      \<lparr>dataset = [(0, 1)], batch_size = 2\<rparr>
      \<lparr>dataset = [(0, 1), (1, 0), (2, 0), (0, 1), (5, 2)], batch_size = 2\<rparr>
    = Inr \<lparr>mean_loss = 9, n_correct = 4, accuracy = 80, predictions = [1, 0, 0, 1, 0]\<rparr>
   \<and> confusion_matrix [1, 0, 0, 1, 2] [1, 0, 0, 1, 0] 3 = Inr [[2, 0, 0], [0, 2, 0], [1, 0, 0]]
   \<and> sum_list ([[2, 0, 0], [0, 2, 0], [1, 0, 0]] ! 2) = count_list [1, 0, 0, 1, 2 :: nat] 2
   \<and> sum_list (diagonal [[2, 0, 0], [0, 2, 0], [1, 0, 0]]) = 4
   \<and> per_class_accuracy [[2, 0, 0], [0, 2, 0], [1, 0, 0]] ! 2 = Some 0
   \<and> (\<exists>cm'. confusion_matrix [1, 0, 0, 1, 2] [1, 0, 0, 1, 0] 3 = Inr cm')"
proof -
  let ?m = "\<lambda>x::nat. [real x, 1, 0]"
  let ?c = "\<lambda>(output :: real list list) (target :: nat list). 3 :: real"
  let ?vl = "\<lparr>dataset = [(0::nat, 1::nat)], batch_size = 2\<rparr>"
  let ?tl = "\<lparr>dataset = [(0::nat, 1::nat), (1, 0), (2, 0), (0, 1), (5, 2)], batch_size = 2\<rparr>"
  let ?r = "\<lparr>mean_loss = 9, n_correct = 4, accuracy = 80, predictions = [1, 0, 0, 1, 0]\<rparr>"
  let ?cm = "[[2, 0, 0], [0, 2, 0], [1, 0, 0 :: nat]]"
  have rows: "\<forall>s\<in>set (dataset ?tl). length (?m (fst s)) = 3" by simp
  have bs: "0 < batch_size ?tl" by simp
  have ev: "evaluate ?m ?c ?vl ?tl = Inr ?r" by code_simp
  have cm: "confusion_matrix (map snd (dataset ?tl)) (predictions ?r) 3 = Inr ?cm"
    by code_simp
  have some: "\<exists>t\<in>set (map snd (dataset ?tl)). t < 3" by simp
  note t = confusion_matrix_consistent [OF rows bs ev, where cm = ?cm]
  have two: "(2::nat) < 3" by simp
  from t cm two have a3: "sum_list (?cm ! 2) = count_list (map snd (dataset ?tl)) 2"
    by blast
  from t cm have a4: "sum_list (diagonal ?cm) = n_correct ?r" by blast
  from t cm two have a5: "per_class_accuracy ?cm ! 2
      = (if sum_list (?cm ! 2) = 0 then None else Some (real (?cm ! 2 ! 2) / real (sum_list (?cm ! 2))))"
    by blast
  from t some have b: "\<exists>cm'. confusion_matrix (map snd (dataset ?tl)) (predictions ?r) 3 = Inr cm'"
    by blast
  from ev cm a3 a4 a5 b show ?thesis by simp
qed

subsection \<open>Embedding matrix\<close>

lemma word_of_Cons:
  "word_of ((w, i) # rest) j = (if i = j then Some w else word_of rest j)"
  by (simp add: word_of_def)

lemma word_of_None: "j \<notin> snd ` set wi \<Longrightarrow> word_of wi j = None"
  by (induction wi) (auto simp: word_of_def)

lemma word_of_member:
  "distinct (map snd wi) \<Longrightarrow> (w, i) \<in> set wi \<Longrightarrow> word_of wi i = Some w"
proof (induction wi)
  case Nil
  then show ?case by simp
next
  case (Cons a wi)
  obtain w' i' where a: "a = (w', i')" by (cases a)
  show ?case
  proof (cases "i' = i")
    case True
    with Cons.prems a have "w' = w" by (force simp: image_iff)
    with True a show ?thesis by (simp add: word_of_Cons)
  next
    case False
    with Cons a show ?thesis by (auto simp: word_of_Cons)
  qed
qed

lemma fill_matrix_result:
  assumes "distinct (map snd wi)"
    and "\<forall>e\<in>set wi. snd e < max_words \<longrightarrow> snd e < length m"
    and "\<forall>row\<in>set m. length row = n_dim"
    and "\<forall>e\<in>set wi. snd e < max_words \<longrightarrow>
           (\<forall>v. emb (fst e) = Some v \<longrightarrow> length v = n_dim)"
  shows "\<exists>m'. fill_matrix max_words emb wi (m, nf)
                 = Inr (m', nf + length (filter (\<lambda>(w, i). i < max_words \<and> emb w = None) wi))
              \<and> length m' = length m
              \<and> (\<forall>j<length m. m' ! j =
                    (case word_of wi j of
                       None \<Rightarrow> m ! j
                     | Some w \<Rightarrow> if j < max_words
                                 then (case emb w of None \<Rightarrow> m ! j | Some v \<Rightarrow> v)
                                 else m ! j))"
  using assms
proof (induction wi arbitrary: m nf)
  case Nil
  show ?case by (simp add: word_of_def)
next
  case (Cons a wi)
  obtain w i where a: "a = (w, i)" by (cases a)
  from Cons.prems(1) a have d: "distinct (map snd wi)" and fresh: "i \<notin> snd ` set wi" by auto
  have wn: "word_of wi i = None" by (rule word_of_None [OF fresh])
  have rest_bound: "\<forall>e\<in>set wi. snd e < max_words \<longrightarrow> snd e < length m"
    using Cons.prems(2) by simp
  have rest_dims: "\<forall>e\<in>set wi. snd e < max_words \<longrightarrow>
                     (\<forall>v. emb (fst e) = Some v \<longrightarrow> length v = n_dim)"
    using Cons.prems(4) by simp
  show ?case
  proof (cases "max_words \<le> i")
    case True
    from Cons.IH [OF d rest_bound Cons.prems(3) rest_dims, of nf] obtain m' where
      f: "fill_matrix max_words emb wi (m, nf)
            = Inr (m', nf + length (filter (\<lambda>(w, i). i < max_words \<and> emb w = None) wi))"
      and l: "length m' = length m"
      and r: "\<forall>j<length m. m' ! j =
                    (case word_of wi j of
                       None \<Rightarrow> m ! j
                     | Some w \<Rightarrow> if j < max_words
                                 then (case emb w of None \<Rightarrow> m ! j | Some v \<Rightarrow> v)
                                 else m ! j)"
      by blast
    have "\<forall>j<length m. m' ! j =
                    (case word_of (a # wi) j of
                       None \<Rightarrow> m ! j
                     | Some w \<Rightarrow> if j < max_words
                                 then (case emb w of None \<Rightarrow> m ! j | Some v \<Rightarrow> v)
                                 else m ! j)"
      using r True wn by (auto simp: a word_of_Cons)
    with f l True show ?thesis by (auto simp: a)
  next
    case False
    then have ilt: "i < max_words" by simp
    with Cons.prems(2) a have im: "i < length m" by simp
    show ?thesis
    proof (cases "emb w")
      case None
      from Cons.IH [OF d rest_bound Cons.prems(3) rest_dims, of "Suc nf"] obtain m' where
        f: "fill_matrix max_words emb wi (m, Suc nf)
              = Inr (m', Suc nf + length (filter (\<lambda>(w, i). i < max_words \<and> emb w = None) wi))"
        and l: "length m' = length m"
        and r: "\<forall>j<length m. m' ! j =
                    (case word_of wi j of
                       None \<Rightarrow> m ! j
                     | Some w \<Rightarrow> if j < max_words
                                 then (case emb w of None \<Rightarrow> m ! j | Some v \<Rightarrow> v)
                                 else m ! j)"
        by blast
      have "\<forall>j<length m. m' ! j =
                    (case word_of (a # wi) j of
                       None \<Rightarrow> m ! j
                     | Some w \<Rightarrow> if j < max_words
                                 then (case emb w of None \<Rightarrow> m ! j | Some v \<Rightarrow> v)
                                 else m ! j)"
        using r None wn by (auto simp: a word_of_Cons)
      with f l None ilt show ?thesis by (auto simp: a)
    next
      case (Some v)
      have lv: "length v = n_dim" using Cons.prems(4) ilt Some by (simp add: a)
      from Cons.prems(3) im have "length (m ! i) = n_dim" by simp
      with lv im have sr: "set_row m i v = Inr (m[i := v])" by (simp add: set_row_def)
      have b': "\<forall>e\<in>set wi. snd e < max_words \<longrightarrow> snd e < length (m[i := v])"
        using rest_bound by simp
      have rows': "\<forall>row\<in>set (m[i := v]). length row = n_dim"
        using Cons.prems(3) lv by (auto dest!: set_update_subset_insert [THEN subsetD])
      from Cons.IH [OF d b' rows' rest_dims, of nf] obtain m' where
        f: "fill_matrix max_words emb wi (m[i := v], nf)
              = Inr (m', nf + length (filter (\<lambda>(w, i). i < max_words \<and> emb w = None) wi))"
        and l: "length m' = length m"
        and r: "\<forall>j<length m. m' ! j =
                    (case word_of wi j of
                       None \<Rightarrow> m[i := v] ! j
                     | Some w \<Rightarrow> if j < max_words
                                 then (case emb w of None \<Rightarrow> m[i := v] ! j | Some v \<Rightarrow> v)
                                 else m[i := v] ! j)"
        by auto
      have "\<forall>j<length m. m' ! j =
                    (case word_of (a # wi) j of
                       None \<Rightarrow> m ! j
                     | Some w \<Rightarrow> if j < max_words
                                 then (case emb w of None \<Rightarrow> m ! j | Some v \<Rightarrow> v)
                                 else m ! j)"
      proof (intro allI impI)
        fix j assume j: "j < length m"
        show "m' ! j = (case word_of (a # wi) j of
                       None \<Rightarrow> m ! j
                     | Some w \<Rightarrow> if j < max_words
                                 then (case emb w of None \<Rightarrow> m ! j | Some v \<Rightarrow> v)
                                 else m ! j)"
        proof (cases "j = i")
          case True
          with r j wn im have "m' ! j = v" by simp
          with True Some ilt show ?thesis by (simp add: a word_of_Cons)
        next
          case False
          with r j have "m' ! j = (case word_of wi j of
                       None \<Rightarrow> m ! j
                     | Some w \<Rightarrow> if j < max_words
                                 then (case emb w of None \<Rightarrow> m ! j | Some v \<Rightarrow> v)
                                 else m ! j)"
            by (auto split: option.splits)
          with False show ?thesis by (simp add: a word_of_Cons)
        qed
      qed
      with f l Some ilt sr show ?thesis by (auto simp: a)
    qed
  qed
qed


lemma bump_keys:
  "map fst (bump w kvs) = (if w \<in> fst ` set kvs then map fst kvs else map fst kvs @ [w])"
  by (induction kvs) (auto split: if_splits)

lemma bump_distinct: "distinct (map fst kvs) \<Longrightarrow> distinct (map fst (bump w kvs))"
  by (simp add: bump_keys)

lemma fold_bump_distinct: "distinct (map fst kvs) \<Longrightarrow> distinct (map fst (fold bump ws kvs))"
  by (induction ws arbitrary: kvs) (simp_all add: bump_distinct)

lemma word_counts_distinct: "distinct (map fst (word_counts texts))"
proof -
  have "distinct (map fst kvs) \<Longrightarrow>
          distinct (map fst (fold (\<lambda>t wc. fold bump (text_to_word_sequence t) wc) texts kvs))"
    for kvs
    by (induction texts arbitrary: kvs) (simp_all add: fold_bump_distinct)
  from this [of "[]"] show ?thesis by (simp add: word_counts_def)
qed

lemma fit_on_texts_ids:
  "map snd (fit_on_texts texts) = [1..<Suc (length (fit_on_texts texts))]"
  by (simp add: fit_on_texts_def Let_def)

text \<open>
  The word index has no word twice, so the list of its items stands for the dictionary.
\<close>

lemma fit_on_texts_words: "distinct (map fst (fit_on_texts texts))"
proof -
  let ?sorted = "sort_key (\<lambda>wc. - int (snd wc)) (word_counts texts)"
  have "mset (map fst ?sorted) = mset (map fst (word_counts texts))"
    by (simp only: mset_map mset_sort)
  then have "distinct (map fst ?sorted)"
    using word_counts_distinct [of texts] mset_eq_imp_distinct_iff by blast
  then show ?thesis by (simp add: fit_on_texts_def Let_def)
qed

lemma word_index_bounds:
  assumes "map snd wi = [1..<Suc (length wi)]" and "e \<in> set wi"
  shows "0 < snd e \<and> snd e \<le> length wi"
proof -
  from assms(2) have "snd e \<in> set (map snd wi)" by simp
  then show ?thesis unfolding assms(1) by auto
qed

lemma embedding_matrix_built:
  assumes ids: "map snd word_index = [1..<Suc (length word_index)]"
    and dims: "\<forall>e\<in>set word_index. snd e < max_words \<longrightarrow>
                 (\<forall>v. embeddings_index (fst e) = Some v \<longrightarrow> length v = n_dim)"
  shows "\<exists>m n_not_found.
           embedding_matrix max_words n_dim word_index embeddings_index
             = Inr (m, n_not_found)
           \<and> length m = num_words_of max_words word_index
           \<and> (\<forall>i<num_words_of max_words word_index.
                 m ! i = (case word_of word_index i of
                            None \<Rightarrow> replicate n_dim 0
                          | Some w \<Rightarrow> (case embeddings_index w of
                                         None \<Rightarrow> replicate n_dim 0
                                       | Some v \<Rightarrow> v)))
           \<and> n_not_found
               = length (filter (\<lambda>(w, i). i < num_words_of max_words word_index
                                          \<and> embeddings_index w = None)
                           word_index)"
    and "\<forall>e\<in>set word_index.
           word_of word_index (snd e) = Some (fst e) \<and> 0 < snd e"
    and "word_of word_index 0 = None"
proof -
  let ?wi = "word_index"
  let ?nw = "num_words_of max_words ?wi"
  let ?m0 = "replicate ?nw (replicate n_dim (0::real))"
  have d: "distinct (map snd ?wi)" by (simp only: ids distinct_upt)
  have cap: "snd e < max_words \<longleftrightarrow> snd e < ?nw" if "e \<in> set ?wi" for e
    using word_index_bounds [OF ids that] by (auto simp: num_words_of_def)
  have b: "\<forall>e\<in>set ?wi. snd e < max_words \<longrightarrow> snd e < length ?m0"
    using cap by simp
  have rows: "\<forall>row\<in>set ?m0. length row = n_dim" by simp
  from fill_matrix_result [OF d b rows dims, of 0] obtain m where
    f: "fill_matrix max_words embeddings_index ?wi (?m0, 0)
          = Inr (m, 0 + length (filter (\<lambda>(w, i). i < max_words \<and> embeddings_index w = None) ?wi))"
    and l: "length m = length ?m0"
    and r: "\<forall>j<length ?m0. m ! j =
                    (case word_of ?wi j of
                       None \<Rightarrow> ?m0 ! j
                     | Some w \<Rightarrow> if j < max_words
                                 then (case embeddings_index w of None \<Rightarrow> ?m0 ! j | Some v \<Rightarrow> v)
                                 else ?m0 ! j)"
    by blast
  have cnt: "filter (\<lambda>(w, i). i < max_words \<and> embeddings_index w = None) ?wi
           = filter (\<lambda>(w, i). i < ?nw \<and> embeddings_index w = None) ?wi"
    by (rule filter_cong [OF refl]) (use cap in auto)
  have rows': "\<forall>i<?nw. m ! i = (case word_of ?wi i of
                            None \<Rightarrow> replicate n_dim 0
                          | Some w \<Rightarrow> (case embeddings_index w of
                                         None \<Rightarrow> replicate n_dim 0
                                       | Some v \<Rightarrow> v))"
  proof (intro allI impI)
    fix i assume i: "i < ?nw"
    then have "i < max_words" by (simp add: num_words_of_def)
    with r i show "m ! i = (case word_of ?wi i of
                            None \<Rightarrow> replicate n_dim 0
                          | Some w \<Rightarrow> (case embeddings_index w of
                                         None \<Rightarrow> replicate n_dim 0
                                       | Some v \<Rightarrow> v))"
      by (auto split: option.splits)
  qed
  have "embedding_matrix max_words n_dim ?wi embeddings_index
          = Inr (m, length (filter (\<lambda>(w, i). i < ?nw \<and> embeddings_index w = None) ?wi))"
    unfolding embedding_matrix_def f cnt by simp
  with l rows' show "\<exists>m n_not_found.
           embedding_matrix max_words n_dim ?wi embeddings_index = Inr (m, n_not_found)
           \<and> length m = ?nw
           \<and> (\<forall>i<?nw.
                 m ! i = (case word_of ?wi i of
                            None \<Rightarrow> replicate n_dim 0
                          | Some w \<Rightarrow> (case embeddings_index w of
                                         None \<Rightarrow> replicate n_dim 0
                                       | Some v \<Rightarrow> v)))
           \<and> n_not_found
               = length (filter (\<lambda>(w, i). i < ?nw \<and> embeddings_index w = None) ?wi)"
    by simp
  show "\<forall>e\<in>set ?wi. word_of ?wi (snd e) = Some (fst e) \<and> 0 < snd e"
  proof
    fix e assume e: "e \<in> set ?wi"
    then have "(fst e, snd e) \<in> set ?wi" by simp
    from word_of_member [OF d this] word_index_bounds [OF ids e]
    show "word_of ?wi (snd e) = Some (fst e) \<and> 0 < snd e" by simp
  qed
  have "0 \<notin> snd ` set ?wi"
  proof
    assume "0 \<in> snd ` set ?wi"
    then obtain e where "e \<in> set ?wi" "snd e = 0" by auto
    with word_index_bounds [OF ids this(1)] show False by simp
  qed
  then show "word_of ?wi 0 = None" by (rule word_of_None)
qed

text \<open>
  C6 (as amended). For a word index that numbers its words from 1 in order, as the
  tokenizer's does, and an embedding table in which the vector of every token of the word
  index with an id below the cap has exactly the embedding dimension: the matrix is built,
  it has \<open>min(max_words, vocab_size + 1)\<close> rows, and for every id below that number the
  row is all-zero when the id's token is absent from the table (or when the id is 0,
  which no token has) and is the token's vector, unchanged, when the token is present;
  the not-found counter is the number of tokens with an id below that number that are
  absent from the table. Every token of the word index is the word of its id.
\<close>

theorem embedding_matrix_rows:
  assumes ids: "map snd word_index = [1..<Suc (length word_index)]"
    and dims: "\<forall>e\<in>set word_index. snd e < max_words \<longrightarrow>
                 (\<forall>v. embeddings_index (fst e) = Some v \<longrightarrow> length v = n_dim)"
  shows "(\<exists>m n_not_found.
            embedding_matrix max_words n_dim word_index embeddings_index
              = Inr (m, n_not_found)
            \<and> length m = num_words_of max_words word_index
            \<and> (\<forall>i<num_words_of max_words word_index.
                  m ! i = (case word_of word_index i of
                             None \<Rightarrow> replicate n_dim 0
                           | Some w \<Rightarrow> (case embeddings_index w of
                                          None \<Rightarrow> replicate n_dim 0
                                        | Some v \<Rightarrow> v)))
            \<and> n_not_found
                = length (filter (\<lambda>(w, i). i < num_words_of max_words word_index
                                           \<and> embeddings_index w = None)
                            word_index))
         \<and> (\<forall>e\<in>set word_index.
               word_of word_index (snd e) = Some (fst e) \<and> 0 < snd e)
         \<and> word_of word_index 0 = None"
  using embedding_matrix_built(1) [OF ids dims]
    embedding_matrix_built(2) [OF ids dims]
    embedding_matrix_built(3) [OF ids dims]
  by (intro conjI)

theorem embedding_matrix_rows_witness:
  "embedding_matrix 4 2 (fit_on_texts [''The cat, the dog.'', ''the Cat'', ''a dog a cat''])
      [''the'' \<mapsto> [1, 2], ''dog'' \<mapsto> [3, 4.5], ''zebra'' \<mapsto> [5, 6], ''a'' \<mapsto> [9]]
     = Inr ([[0, 0], [1, 2], [0, 0], [3, 4.5]], 1)
   \<and> fit_on_texts [''The cat, the dog.'', ''the Cat'', ''a dog a cat'']
     = [(''the'', 1), (''cat'', 2), (''dog'', 3), (''a'', 4)]
   \<and> num_words_of 4 (fit_on_texts [''The cat, the dog.'', ''the Cat'', ''a dog a cat'']) = 4
   \<and> length [[0, 0], [1, 2], [0, 0], [3, 4.5 :: real]]
       = num_words_of 4 (fit_on_texts [''The cat, the dog.'', ''the Cat'', ''a dog a cat''])
   \<and> word_of (fit_on_texts [''The cat, the dog.'', ''the Cat'', ''a dog a cat'']) 2 = Some ''cat''
   \<and> word_of (fit_on_texts [''The cat, the dog.'', ''the Cat'', ''a dog a cat'']) 0 = None"
proof -
  let ?texts = "[''The cat, the dog.'', ''the Cat'', ''a dog a cat'']"
  let ?emb = "[''the'' \<mapsto> [1, 2], ''dog'' \<mapsto> [3, 4.5 :: real], ''zebra'' \<mapsto> [5, 6],
               ''a'' \<mapsto> [9]]"
  have wi: "fit_on_texts ?texts = [(''the'', 1), (''cat'', 2), (''dog'', 3), (''a'', 4)]"
    by code_simp
  have dims: "\<forall>e\<in>set (fit_on_texts ?texts). snd e < 4 \<longrightarrow>
                (\<forall>v. ?emb (fst e) = Some v \<longrightarrow> length v = 2)"
    unfolding wi by simp
  have ev: "embedding_matrix 4 2 (fit_on_texts ?texts) ?emb
              = Inr ([[0, 0], [1, 2], [0, 0], [3, 4.5]], 1)"
    unfolding wi by (simp add: embedding_matrix_def num_words_of_def set_row_def numeral_eq_Suc)
  have nw: "num_words_of 4 (fit_on_texts ?texts) = 4"
    unfolding wi by (simp add: num_words_of_def)
  note t = embedding_matrix_rows [OF fit_on_texts_ids [of ?texts] dims]
  from t obtain m nf where
    "embedding_matrix 4 2 (fit_on_texts ?texts) ?emb = Inr (m, nf)"
    and "length m = num_words_of 4 (fit_on_texts ?texts)"
    by blast
  with ev have a: "length [[0, 0], [1, 2], [0, 0], [3, 4.5 :: real]]
      = num_words_of 4 (fit_on_texts ?texts)"
    by simp
  have "(''cat'', 2) \<in> set (fit_on_texts ?texts)" unfolding wi by simp
  with t have b: "word_of (fit_on_texts ?texts) 2 = Some ''cat''" by force
  from t have c: "word_of (fit_on_texts ?texts) 0 = None" by blast
  from ev wi nw a b c show ?thesis by blast
qed

text \<open>
  C6 as stated fails: the loader stores a line with a single value as a one-entry vector,
  and the assignment of that vector to a row of the matrix broadcasts the value over the
  row, so the row of a token that is present is not its source vector.
\<close>

theorem embedding_matrix_short_vector_counterexample:
  "load_embeddings decimal_literal Map.empty [''the 7\<newline>''] = Inr [''the'' \<mapsto> [7]]
   \<and> num_words_of 4 [(''the'', 1)] = 2
   \<and> word_of [(''the'', 1)] 1 = Some ''the''
   \<and> embedding_matrix 4 2 [(''the'', 1)] [''the'' \<mapsto> [7]] = Inr ([[0, 0], [7, 7]], 0)
   \<and> [[0, 0], [7, 7]] ! 1 \<noteq> [7 :: real]"
proof -
  have n: "decimal_literal ''7'' = Some 7"
    by (simp add: decimal_literal_def unsigned_decimal_def digit_of_def)
  have a: "load_embeddings decimal_literal Map.empty [''the 7\<newline>''] = Inr [''the'' \<mapsto> [7]]"
    by (simp add: py_split_def is_space_def n)
  have b: "num_words_of 4 [(''the'', 1)] = 2" by (simp add: num_words_of_def)
  have c: "word_of [(''the'', 1)] 1 = Some ''the''" by (simp add: word_of_def)
  have d: "embedding_matrix 4 2 [(''the'', 1)] [''the'' \<mapsto> [7]] = Inr ([[0, 0], [7, 7]], 0)"
    by (simp add: embedding_matrix_def num_words_of_def set_row_def numeral_eq_Suc)
  have e: "[[0, 0], [7, 7]] ! 1 \<noteq> [7 :: real]" by simp
  from a b c d e show ?thesis by blast
qed

end
